theory Spec2Isabelle
  imports Complex_Main "HOL-Library.Word"
begin

section \<open>The CAN debug overlay (selfdrive/ui/widgets/can_debug_overlay.py)\<close>

text \<open>
  The overlay keeps the latest CAN frame per (bus, address) key in a dict
  (\<open>_messages\<close>, the Frame Store) and the display order in a bounded deque
  (\<open>_message_order\<close>, the Recency Tracker).  The model is state passing: every method
  takes the overlay state and the values it reads from its environment (the monotonic
  clock, the parameter store, the drained socket) and returns the new state.

  Clock readings and screen coordinates are Python floats in the source; they are
  modelled as exact rationals, so rounding of float arithmetic is outside the model.
\<close>

subsection \<open>Configuration\<close>

type_synonym color = "nat \<times> nat \<times> nat \<times> nat"

definition MAX_MESSAGES :: nat where
  "MAX_MESSAGES = 20"

definition MESSAGE_TIMEOUT :: rat where
  "MESSAGE_TIMEOUT = 2"

definition OVERLAY_ALPHA :: nat where
  "OVERLAY_ALPHA = 128"

definition BACKGROUND_COLOR :: color where
  "BACKGROUND_COLOR = (0, 0, 0, OVERLAY_ALPHA)"

definition TEXT_COLOR :: color where
  "TEXT_COLOR = (255, 255, 255, 255)"

definition STALE_TEXT_COLOR :: color where
  "STALE_TEXT_COLOR = (150, 150, 150, 255)"

definition ERROR_TEXT_COLOR :: color where
  "ERROR_TEXT_COLOR = (255, 100, 100, 255)"

definition HEADER_COLOR :: color where
  "HEADER_COLOR = (100, 200, 255, 255)"

definition FONT_SIZE :: rat where
  "FONT_SIZE = 22"

definition LINE_HEIGHT :: rat where
  "LINE_HEIGHT = 26"

definition PADDING :: rat where
  "PADDING = 10"

subsection \<open>Python containers and formatting\<close>

text \<open>
  A Python dict is an association list in insertion order with distinct keys:
  \<open>d[k] = v\<close> replaces the value in place when \<open>k\<close> is present and appends
  otherwise; \<open>del d[k]\<close> removes the entry; \<open>d[k]\<close> raises KeyError when
  \<open>k\<close> is absent.
\<close>

datatype exn = KeyError | MessagingError

fun dict_setitem :: "'k \<Rightarrow> 'v \<Rightarrow> ('k \<times> 'v) list \<Rightarrow> ('k \<times> 'v) list" where
  "dict_setitem k v [] = [(k, v)]"
| "dict_setitem k v (p # ps) = (if fst p = k then (k, v) # ps else p # dict_setitem k v ps)"

definition dict_delitem :: "'k \<Rightarrow> ('k \<times> 'v) list \<Rightarrow> ('k \<times> 'v) list" where
  "dict_delitem k d = filter (\<lambda>p. fst p \<noteq> k) d"

definition dict_contains :: "'k \<Rightarrow> ('k \<times> 'v) list \<Rightarrow> bool" where
  "dict_contains k d = (k \<in> set (map fst d))"

definition dict_getitem :: "('k \<times> 'v) list \<Rightarrow> 'k \<Rightarrow> exn + 'v" where
  "dict_getitem d k = (case map_of d k of None \<Rightarrow> Inl KeyError | Some v \<Rightarrow> Inr v)"

text \<open>
  \<open>collections.deque(maxlen=n)\<close>, oldest element first: \<open>append\<close> adds on the right
  and, when the deque is then longer than \<open>maxlen\<close>, drops the leftmost element;
  \<open>remove\<close> deletes the first occurrence.
\<close>

definition deque_append :: "nat \<Rightarrow> 'a list \<Rightarrow> 'a \<Rightarrow> 'a list" where
  "deque_append maxlen xs x = (let ys = xs @ [x] in if length ys > maxlen then tl ys else ys)"

definition deque_remove :: "'a \<Rightarrow> 'a list \<Rightarrow> 'a list" where
  "deque_remove x xs = remove1 x xs"

definition hex_digit :: "nat \<Rightarrow> char" where
  "hex_digit n = ''0123456789ABCDEF'' ! n"

fun hex_digits :: "nat \<Rightarrow> string" where
  "hex_digits n = (if n < 16 then [hex_digit n] else hex_digits (n div 16) @ [hex_digit (n mod 16)])"

fun dec_digits :: "nat \<Rightarrow> string" where
  "dec_digits n = (if n < 10 then [hex_digit n] else dec_digits (n div 10) @ [hex_digit (n mod 10)])"

definition pad_left :: "char \<Rightarrow> nat \<Rightarrow> string \<Rightarrow> string" where
  "pad_left c w s = replicate (w - length s) c @ s"

text \<open>The format specs \<open>02X\<close> and \<open>03X\<close> (zero padding goes after the sign) and \<open>2d\<close>.\<close>

definition format_0X :: "nat \<Rightarrow> int \<Rightarrow> string" where
  "format_0X w n =
     (if n < 0 then CHR ''-'' # pad_left CHR ''0'' (w - 1) (hex_digits (nat (- n)))
      else pad_left CHR ''0'' w (hex_digits (nat n)))"

definition format_d :: "nat \<Rightarrow> int \<Rightarrow> string" where
  "format_d w n =
     pad_left CHR '' '' w ((if n < 0 then ''-'' else '''') @ dec_digits (nat \<bar>n\<bar>))"

fun join :: "string \<Rightarrow> string list \<Rightarrow> string" where
  "join sep [] = ''''"
| "join sep [s] = s"
| "join sep (s # t # ss) = s @ sep @ join sep (t # ss)"

subsection \<open>CANMessage\<close>

type_synonym byte = "8 word"

type_synonym key = "int \<times> int"

record CANMessage =
  address :: int
  data :: "byte list"
  bus :: int
  timestamp :: rat
  checksum_valid :: bool

definition CANMessage_init :: "int \<Rightarrow> byte list \<Rightarrow> int \<Rightarrow> rat \<Rightarrow> CANMessage" where
  "CANMessage_init a d b t =
     \<lparr>address = a, data = d, bus = b, timestamp = t, checksum_valid = True\<rparr>"

definition format_data :: "CANMessage \<Rightarrow> string" where
  "format_data m = join '' '' (map (\<lambda>b. format_0X 2 (uint b)) (data m))"

definition is_stale :: "CANMessage \<Rightarrow> rat \<Rightarrow> bool" where
  "is_stale m current_time = (current_time - timestamp m > MESSAGE_TIMEOUT)"

subsection \<open>CANDebugOverlay: state and feature gate\<close>

text \<open>The handle \<open>messaging.sub_sock('can', conflate=True, timeout=0)\<close> returns.\<close>

datatype sub_sock = SubSock string bool nat

record overlay =
  messages :: "(key \<times> CANMessage) list"
  message_order :: "key list"
  can_sock :: "sub_sock option"
  debug_enabled :: bool
  last_param_check :: rat

definition overlay_init :: overlay where
  "overlay_init =
     \<lparr>messages = [], message_order = [], can_sock = None,
      debug_enabled = False, last_param_check = 0\<rparr>"

text \<open>
  \<open>_check_debug_enabled\<close>; \<open>current_time\<close> is the reading of \<open>time.monotonic()\<close>
  and \<open>flag\<close> what \<open>params.get_bool("ShowDebugInfo")\<close> returns when it is asked.
\<close>

definition check_debug_enabled :: "rat \<Rightarrow> bool \<Rightarrow> overlay \<Rightarrow> bool \<times> overlay" where
  "check_debug_enabled current_time flag s =
     (let s' =
        (if current_time - last_param_check s > 1 / 2 then
           let s1 = s\<lparr>debug_enabled := flag, last_param_check := current_time\<rparr> in
           if debug_enabled s1 \<and> can_sock s1 = None then
             s1\<lparr>can_sock := Some (SubSock ''can'' True 0)\<rparr>
           else if \<not> debug_enabled s1 \<and> can_sock s1 \<noteq> None then
             s1\<lparr>can_sock := None, messages := [], message_order := []\<rparr>
           else s1
         else s)
      in (debug_enabled s', s'))"

subsection \<open>CANDebugOverlay: ingestion and sweep\<close>

text \<open>
  What \<open>messaging.drain_sock\<close> delivers: a list of events, each with its union tag
  (\<open>which()\<close>) and its list of CAN sub-frames.  Reading a sub-frame's fields
  (\<open>src\<close>, \<open>address\<close>, \<open>bytes(dat)\<close>) either succeeds or raises, as it does on a
  malformed record; the call \<open>drain_sock\<close> itself may raise as well.
\<close>

datatype can_msg = CanData int int "byte list" | Malformed

datatype event = Event string "can_msg list"

text \<open>
  Lines 93--111, the body of the inner loop for one well-formed sub-frame.  The diagnostic
  \<open>print\<close> calls, here and in \<open>_render\<close>, are not modelled.
\<close>

definition apply_can_msg :: "rat \<Rightarrow> int \<Rightarrow> int \<Rightarrow> byte list \<Rightarrow> overlay \<Rightarrow> overlay" where
  "apply_can_msg current_time src addr dat s =
     (let k = (src, addr);
          s1 = s\<lparr>messages := dict_setitem k (CANMessage_init addr dat src current_time) (messages s)\<rparr>;
          s2 = (if k \<in> set (message_order s1)
                then s1\<lparr>message_order := deque_remove k (message_order s1)\<rparr> else s1)
      in s2\<lparr>message_order := deque_append (MAX_MESSAGES * 2) (message_order s2) k\<rparr>)"

text \<open>
  The loops return the exception raised, if any, with the state as it was mutated up to
  that point (Python mutates in place, so the records applied before a raise stay applied).
\<close>

fun apply_can_msgs :: "rat \<Rightarrow> can_msg list \<Rightarrow> overlay \<Rightarrow> exn option \<times> overlay" where
  "apply_can_msgs current_time [] s = (None, s)"
| "apply_can_msgs current_time (Malformed # cs) s = (Some MessagingError, s)"
| "apply_can_msgs current_time (CanData src addr dat # cs) s =
     apply_can_msgs current_time cs (apply_can_msg current_time src addr dat s)"

fun apply_msgs :: "rat \<Rightarrow> event list \<Rightarrow> overlay \<Rightarrow> exn option \<times> overlay" where
  "apply_msgs current_time [] s = (None, s)"
| "apply_msgs current_time (Event which cans # msgs) s =
     (if which = ''can'' then
        (case apply_can_msgs current_time cans s of
           (Some e, s') \<Rightarrow> (Some e, s')
         | (None, s') \<Rightarrow> apply_msgs current_time msgs s')
      else apply_msgs current_time msgs s)"

text \<open>
  The sub-frames the two loops visit, in order: those of the events tagged \<open>can\<close>.
  (Used to state what a drain has applied; not a function of the source.)
\<close>

definition can_records :: "event list \<Rightarrow> can_msg list" where
  "can_records msgs =
     concat (map (\<lambda>ev. case ev of Event which cans \<Rightarrow> if which = ''can'' then cans else []) msgs)"

text \<open>Lines 114--118, the removal of stale messages.\<close>

definition stale_keys :: "rat \<Rightarrow> overlay \<Rightarrow> key list" where
  "stale_keys current_time s = map fst (filter (\<lambda>(k, m). is_stale m current_time) (messages s))"

definition remove_key :: "key \<Rightarrow> overlay \<Rightarrow> overlay" where
  "remove_key k s =
     (let s1 = s\<lparr>messages := dict_delitem k (messages s)\<rparr> in
      if k \<in> set (message_order s1)
      then s1\<lparr>message_order := deque_remove k (message_order s1)\<rparr> else s1)"

definition sweep :: "rat \<Rightarrow> overlay \<Rightarrow> overlay" where
  "sweep current_time s = fold remove_key (stale_keys current_time s) s"

text \<open>
  The body of the \<open>try\<close> block: \<open>drained\<close> is the outcome of \<open>drain_sock\<close>,
  \<open>current_time\<close> the clock reading taken after it.
\<close>

definition try_body :: "exn + event list \<Rightarrow> rat \<Rightarrow> overlay \<Rightarrow> exn option \<times> overlay" where
  "try_body drained current_time s =
     (case drained of
        Inl e \<Rightarrow> (Some e, s)
      | Inr msgs \<Rightarrow>
          (case apply_msgs current_time msgs s of
             (Some e, s') \<Rightarrow> (Some e, s')
           | (None, s') \<Rightarrow> (None, sweep current_time s')))"

text \<open>
  \<open>_update_messages\<close>.  The first component of the result is the exception that
  leaves the method; \<open>except Exception: pass\<close> discards whatever the body raised.
\<close>

definition update_messages :: "exn + event list \<Rightarrow> rat \<Rightarrow> overlay \<Rightarrow> exn option \<times> overlay" where
  "update_messages drained current_time s =
     (if can_sock s = None then (None, s)
      else (case try_body drained current_time s of (_, s') \<Rightarrow> (None, s')))"

text \<open>
  A sequence of calls of \<open>_update_messages\<close>, each with what it drains and its clock
  reading; and, for one call with the socket held, the sub-frames it applies (those before
  the first malformed one, none when \<open>drain_sock\<close> raises) and whether it reaches the
  sweep (only when nothing raised).  These three serve to state properties of runs; they
  are not functions of the source.
\<close>

definition applied_records :: "exn + event list \<Rightarrow> can_msg list" where
  "applied_records drained =
     (case drained of
        Inl e \<Rightarrow> []
      | Inr msgs \<Rightarrow> takeWhile (\<lambda>c. c \<noteq> Malformed) (can_records msgs))"

definition sweep_runs :: "exn + event list \<Rightarrow> bool" where
  "sweep_runs drained =
     (case drained of Inl e \<Rightarrow> False | Inr msgs \<Rightarrow> Malformed \<notin> set (can_records msgs))"

definition run_updates :: "((exn + event list) \<times> rat) list \<Rightarrow> overlay \<Rightarrow> overlay" where
  "run_updates calls s = fold (\<lambda>(drained, t) s. snd (update_messages drained t s)) calls s"

subsection \<open>CANDebugOverlay: rendering\<close>

datatype font = MEDIUM | BOLD

datatype Rectangle = Rectangle rat rat rat rat

datatype draw_cmd =
  DrawRectangleRec Rectangle color
| DrawRectangleLinesEx Rectangle rat color
| DrawTextEx font string "rat \<times> rat" rat rat color

definition format_line :: "CANMessage \<Rightarrow> string" where
  "format_line m =
     format_d 2 (bus m) @ ''   0x'' @ format_0X 3 (address m) @ ''  '' @ format_data m"

text \<open>Lines 176--182, the colour of a row.\<close>

definition row_color :: "CANMessage \<Rightarrow> rat \<Rightarrow> color" where
  "row_color m current_time =
     (if is_stale m current_time then STALE_TEXT_COLOR
      else if \<not> checksum_valid m then ERROR_TEXT_COLOR
      else TEXT_COLOR)"

text \<open>Line 162, \<open>list(self._message_order)[-MAX_MESSAGES:]\<close>.\<close>

definition recent_keys :: "overlay \<Rightarrow> key list" where
  "recent_keys s = drop (length (message_order s) - MAX_MESSAGES) (message_order s)"

text \<open>
  Lines 164--186, the loop over \<open>reversed(recent_keys)\<close>: it stops when the next row
  would start at or below \<open>max_y\<close>, skips a key that is not in the dict, and otherwise
  draws the message at \<open>y_offset\<close> in its colour.  A row is the message drawn, its
  vertical position and its colour.
\<close>

type_synonym row = "CANMessage \<times> rat \<times> color"

fun message_rows ::
  "(key \<times> CANMessage) list \<Rightarrow> rat \<Rightarrow> rat \<Rightarrow> key list \<Rightarrow> rat \<Rightarrow> exn + row list" where
  "message_rows d current_time max_y [] y_offset = Inr []"
| "message_rows d current_time max_y (k # ks) y_offset =
     (if y_offset \<ge> max_y then Inr []
      else if \<not> dict_contains k d then message_rows d current_time max_y ks y_offset
      else
        (case dict_getitem d k of
           Inl e \<Rightarrow> Inl e
         | Inr msg \<Rightarrow>
             (case message_rows d current_time max_y ks (y_offset + (LINE_HEIGHT - 4)) of
                Inl e \<Rightarrow> Inl e
              | Inr rows \<Rightarrow> Inr ((msg, y_offset, row_color msg current_time) # rows))))"

text \<open>Lines 135--139 and 149--159, the geometry of the overlay inside \<open>rect\<close>.\<close>

definition overlay_rect :: "Rectangle \<Rightarrow> Rectangle" where
  "overlay_rect rect =
     (case rect of Rectangle x y w h \<Rightarrow>
        Rectangle (x + w - w / 4 - PADDING) (y + h - h / 4 - PADDING) (w / 4) (h / 4))"

definition header_y :: "Rectangle \<Rightarrow> rat" where
  "header_y rect = (case overlay_rect rect of Rectangle ox oy ow oh \<Rightarrow> oy + PADDING)"

definition col_header_y :: "Rectangle \<Rightarrow> rat" where
  "col_header_y rect = header_y rect + LINE_HEIGHT"

definition max_y :: "Rectangle \<Rightarrow> rat" where
  "max_y rect = (case overlay_rect rect of Rectangle ox oy ow oh \<Rightarrow> oy + oh - PADDING)"

text \<open>Lines 156--186: the rows of one render pass (the snapshot).\<close>

definition draw_messages :: "Rectangle \<Rightarrow> rat \<Rightarrow> overlay \<Rightarrow> (exn + row list) \<times> overlay" where
  "draw_messages rect current_time s =
     (message_rows (messages s) current_time (max_y rect) (rev (recent_keys s))
        (col_header_y rect + LINE_HEIGHT), s)"

text \<open>
  Lines 131--190: everything \<open>_render\<close> draws once the gate is open and the messages are
  updated, as the list of the drawing calls in the order they are made.
\<close>

definition draw_overlay ::
  "Rectangle \<Rightarrow> rat \<Rightarrow> overlay \<Rightarrow> (exn + draw_cmd list) \<times> overlay" where
  "draw_overlay rect current_time s =
     (case overlay_rect rect of Rectangle ox oy ow oh \<Rightarrow>
        (case draw_messages rect current_time s of
           (Inl e, s') \<Rightarrow> (Inl e, s')
         | (Inr rows, s') \<Rightarrow>
             (Inr ([DrawRectangleRec (overlay_rect rect) BACKGROUND_COLOR,
                    DrawRectangleLinesEx (overlay_rect rect) 1 (100, 100, 100, OVERLAY_ALPHA),
                    DrawTextEx BOLD ''CAN Debug'' (ox + PADDING, header_y rect) FONT_SIZE 0
                      HEADER_COLOR,
                    DrawTextEx MEDIUM ''Bus  Addr     Data'' (ox + PADDING, col_header_y rect)
                      (FONT_SIZE - 2) 0 HEADER_COLOR]
                   @ map (\<lambda>(msg, y_offset, c).
                        DrawTextEx MEDIUM (format_line msg) (ox + PADDING, y_offset)
                          (FONT_SIZE - 2) 0 c) rows
                   @ [DrawTextEx MEDIUM (''Messages: '' @ dec_digits (length (messages s')))
                        (ox + ow - 120, header_y rect) (FONT_SIZE - 4) 0 STALE_TEXT_COLOR]),
              s')))"

text \<open>
  \<open>_render\<close>: the gate check, the update and the drawing, each with its own clock
  reading.  Nothing catches an exception here, so one that left \<open>_update_messages\<close> or
  the drawing would leave \<open>_render\<close>.
\<close>

definition render ::
  "Rectangle \<Rightarrow> rat \<Rightarrow> bool \<Rightarrow> exn + event list \<Rightarrow> rat \<Rightarrow> rat \<Rightarrow> overlay
     \<Rightarrow> (exn + draw_cmd list) \<times> overlay" where
  "render rect t_check flag drained t_update t_draw s =
     (case check_debug_enabled t_check flag s of
        (enabled, s1) \<Rightarrow>
          if \<not> enabled then (Inr [], s1)
          else
            (case update_messages drained t_update s1 of
               (Some e, s2) \<Rightarrow> (Inl e, s2)
             | (None, s2) \<Rightarrow> draw_overlay rect t_draw s2))"

subsection \<open>Reachable states\<close>

text \<open>
  The states an overlay can be in between two method calls: the one the constructor
  builds, and those any call of \<open>_check_debug_enabled\<close> or \<open>_update_messages\<close>
  (hence any call of \<open>_render\<close>) leads to, whatever the environment delivers.
\<close>

inductive reachable :: "overlay \<Rightarrow> bool" where
  reachable_init: "reachable overlay_init"
| reachable_check: "reachable s \<Longrightarrow> reachable (snd (check_debug_enabled t flag s))"
| reachable_update: "reachable s \<Longrightarrow> reachable (snd (update_messages drained t s))"

subsection \<open>The representation invariant\<close>

text \<open>
  What holds of the two containers in every reachable state: the dict has one entry per
  key, the deque has no duplicate and at most \<open>2 * MAX_MESSAGES\<close> keys, every key of
  the deque is a key of the dict, and every stored message has its validity flag set.
\<close>

definition overlay_inv :: "overlay \<Rightarrow> bool" where
  "overlay_inv s \<longleftrightarrow>
     distinct (map fst (messages s)) \<and>
     distinct (message_order s) \<and>
     length (message_order s) \<le> MAX_MESSAGES * 2 \<and>
     set (message_order s) \<subseteq> fst ` set (messages s) \<and>
     (\<forall>p \<in> set (messages s). checksum_valid (snd p))"

subsection \<open>Example states\<close>

text \<open>
  A burst of \<open>n\<close> sub-frames with the distinct keys (0, 0), ..., (0, n - 1); an active
  overlay with empty containers (the constructor's state after a check that read the flag
  as true); and that overlay after one \<open>_update_messages\<close> that drained the burst.
\<close>

fun burst :: "nat \<Rightarrow> can_msg list" where
  "burst 0 = []"
| "burst (Suc n) = burst n @ [CanData 0 (int n) []]"

definition active_empty :: overlay where
  "active_empty = snd (check_debug_enabled 1 True overlay_init)"

definition burst_state :: "nat \<Rightarrow> overlay" where
  "burst_state n = snd (update_messages (Inr [Event ''can'' (burst n)]) 1 active_empty)"

text \<open>
  An active overlay holding three frames, ingested by three calls of
  \<open>_update_messages\<close> at times 1, 1.1 and 1.2.
\<close>

definition aged_frames :: overlay where
  "aged_frames =
     snd (update_messages (Inr [Event ''can'' [CanData 1 0x202 []]]) (12 / 10)
       (snd (update_messages (Inr [Event ''can'' [CanData 1 0x201 []]]) (11 / 10)
         (snd (update_messages (Inr [Event ''can'' [CanData 1 0x200 []]]) 1 active_empty)))))"

text \<open>
  A state no run reaches, whose deque names a key, (0, 7), that the dict does not hold.
\<close>

definition dangling_key :: overlay where
  "dangling_key =
     active_empty\<lparr>messages := [((0, 1), CANMessage_init 1 [0x2A] 0 1)],
                  message_order := [(0, 1), (0, 7)]\<rparr>"

text \<open>
  Two frames ingested at time 1 and, by a second \<open>_update_messages\<close>, a third at 2.5.
\<close>

definition mixed_state :: overlay where
  "mixed_state = snd (update_messages (Inr [Event ''can'' [CanData 0 7 [0x11]]]) (5 / 2) (burst_state 2))"

text \<open>A drain whose second sub-frame is malformed.\<close>

definition partial_drain :: "exn + event list" where
  "partial_drain = Inr [Event ''can'' [CanData 0 0x123 [0x11, 0x22], Malformed]]"

section \<open>Properties of the containers\<close>

lemma keys_dict_setitem: "fst ` set (dict_setitem k v d) = insert k (fst ` set d)"
  by (induction d) auto

lemma distinct_dict_setitem:
  "distinct (map fst d) \<Longrightarrow> distinct (map fst (dict_setitem k v d))"
proof (induction d)
  case Nil
  show ?case by simp
next
  case (Cons p ps)
  have "fst p \<noteq> k \<Longrightarrow> fst p \<notin> fst ` set (dict_setitem k v ps)"
    using Cons.prems by (simp add: keys_dict_setitem)
  with Cons show ?case by auto
qed

lemma map_of_dict_setitem: "map_of (dict_setitem k v d) = (map_of d)(k \<mapsto> v)"
  by (induction d) (auto simp: fun_eq_iff)

lemma set_dict_setitem: "set (dict_setitem k v d) \<subseteq> insert (k, v) (set d)"
  by (induction d) auto

lemma entry_dict_setitem:
  "distinct (map fst d) \<Longrightarrow> filter (\<lambda>p. fst p = k) (dict_setitem k v d) = [(k, v)]"
proof (induction d)
  case Nil
  show ?case by simp
next
  case (Cons p ps)
  show ?case
  proof (cases "fst p = k")
    case True
    with Cons.prems have "k \<notin> fst ` set ps" by auto
    then have "filter (\<lambda>p. fst p = k) ps = []"
      by (auto simp: filter_empty_conv)
    with True show ?thesis by simp
  next
    case False
    with Cons show ?thesis by simp
  qed
qed

lemma keys_dict_delitem: "fst ` set (dict_delitem k d) = fst ` set d - {k}"
  by (auto simp: dict_delitem_def)

lemma distinct_dict_delitem: "distinct (map fst d) \<Longrightarrow> distinct (map fst (dict_delitem k d))"
  by (simp add: dict_delitem_def distinct_map_filter)

lemma length_deque_append:
  "length xs \<le> n \<Longrightarrow> 0 < n \<Longrightarrow> length (deque_append n xs x) \<le> n"
  by (auto simp: deque_append_def Let_def)

lemma set_deque_append: "set (deque_append n xs x) \<subseteq> insert x (set xs)"
  by (cases xs) (auto simp: deque_append_def Let_def)

lemma last_deque_append: "0 < n \<Longrightarrow> last (deque_append n xs x) = x"
  by (cases xs) (auto simp: deque_append_def Let_def)

lemma distinct_deque_append:
  "distinct xs \<Longrightarrow> x \<notin> set xs \<Longrightarrow> distinct (deque_append n xs x)"
  by (cases xs) (auto simp: deque_append_def Let_def)

lemma deque_append_nonempty: "0 < n \<Longrightarrow> deque_append n xs x \<noteq> []"
  by (cases xs) (auto simp: deque_append_def Let_def)

lemma mem_deque_append: "0 < n \<Longrightarrow> x \<in> set (deque_append n xs x)"
  using last_deque_append [of n xs x] deque_append_nonempty [of n xs x] last_in_set by metis

section \<open>The invariant is preserved\<close>

lemma messages_apply_can_msg:
  "messages (apply_can_msg t src addr dat s) =
     dict_setitem (src, addr) (CANMessage_init addr dat src t) (messages s)"
  by (simp add: apply_can_msg_def Let_def)

lemma message_order_apply_can_msg:
  "message_order (apply_can_msg t src addr dat s) =
     deque_append (MAX_MESSAGES * 2) (remove1 (src, addr) (message_order s)) (src, addr)"
  by (simp add: apply_can_msg_def Let_def deque_remove_def remove1_idem)

lemma overlay_inv_apply_can_msg:
  assumes "overlay_inv s"
  shows "overlay_inv (apply_can_msg t src addr dat s)"
proof -
  let ?k = "(src, addr)"
  let ?xs = "remove1 ?k (message_order s)"
  from assms have d: "distinct ?xs" and n: "?k \<notin> set ?xs"
    and l: "length ?xs \<le> MAX_MESSAGES * 2"
    and sub: "set ?xs \<subseteq> fst ` set (messages s)"
    using set_remove1_subset [of ?k "message_order s"]
    by (auto simp: overlay_inv_def length_remove1)
  have "set (deque_append (MAX_MESSAGES * 2) ?xs ?k) \<subseteq> insert ?k (fst ` set (messages s))"
    using set_deque_append [of "MAX_MESSAGES * 2" ?xs ?k] sub by auto
  moreover have "\<forall>p \<in> set (dict_setitem ?k (CANMessage_init addr dat src t) (messages s)).
      checksum_valid (snd p)"
    using set_dict_setitem [of ?k "CANMessage_init addr dat src t" "messages s"] assms
    by (auto simp: overlay_inv_def CANMessage_init_def)
  ultimately show ?thesis
    using assms d n l
    by (simp add: overlay_inv_def messages_apply_can_msg message_order_apply_can_msg
        distinct_dict_setitem distinct_deque_append length_deque_append keys_dict_setitem
        MAX_MESSAGES_def)
qed


lemma overlay_inv_apply_can_msgs:
  "overlay_inv s \<Longrightarrow> overlay_inv (snd (apply_can_msgs t cs s))"
  by (induction t cs s rule: apply_can_msgs.induct) (simp_all add: overlay_inv_apply_can_msg)

lemma overlay_inv_apply_msgs:
  "overlay_inv s \<Longrightarrow> overlay_inv (snd (apply_msgs t msgs s))"
proof (induction t msgs s rule: apply_msgs.induct)
  case (1 t s)
  then show ?case by simp
next
  case (2 t which cans msgs s)
  show ?case
  proof (cases "which = ''can''")
    case False
    with 2 show ?thesis by simp
  next
    case True
    obtain r s' where r: "apply_can_msgs t cans s = (r, s')"
      by (cases "apply_can_msgs t cans s")
    have inv': "overlay_inv s'"
      using overlay_inv_apply_can_msgs [OF "2.prems", of t cans] r by simp
    show ?thesis
    proof (cases r)
      case None
      with True r inv' "2.IH"(1) show ?thesis by simp
    next
      case (Some e)
      with True r inv' show ?thesis by simp
    qed
  qed
qed

lemma messages_remove_key: "messages (remove_key k s) = dict_delitem k (messages s)"
  by (simp add: remove_key_def Let_def)

lemma message_order_remove_key: "message_order (remove_key k s) = remove1 k (message_order s)"
  by (simp add: remove_key_def Let_def deque_remove_def remove1_idem)

lemma messages_fold_remove_key:
  "messages (fold remove_key ks s) = filter (\<lambda>p. fst p \<notin> set ks) (messages s)"
proof (induction ks arbitrary: s)
  case Nil
  show ?case by simp
next
  case (Cons k ks)
  show ?case
    by (simp add: Cons.IH messages_remove_key dict_delitem_def conj_commute)
qed

lemma message_order_fold_remove_key:
  "distinct (message_order s) \<Longrightarrow>
   message_order (fold remove_key ks s) = filter (\<lambda>k. k \<notin> set ks) (message_order s)"
proof (induction ks arbitrary: s)
  case Nil
  show ?case by simp
next
  case (Cons k ks)
  have "remove1 k (message_order s) = filter (\<lambda>x. x \<noteq> k) (message_order s)"
    using Cons.prems by (simp add: distinct_remove1_removeAll removeAll_filter_not_eq) metis
  moreover have "distinct (message_order (remove_key k s))"
    using Cons.prems by (simp add: message_order_remove_key)
  ultimately show ?case
    using Cons.IH [of "remove_key k s"]
    by (simp add: message_order_remove_key conj_commute)
qed

lemma stale_key_iff:
  assumes "distinct (map fst d)" and "(k, m) \<in> set d"
  shows "k \<in> fst ` set (filter (\<lambda>(k, m). is_stale m t) d) \<longleftrightarrow> is_stale m t"
proof
  assume "k \<in> fst ` set (filter (\<lambda>(k, m). is_stale m t) d)"
  then obtain m' where m': "(k, m') \<in> set d" "is_stale m' t" by auto
  with assms have "m' = m" by (meson eq_key_imp_eq_value)
  with m' show "is_stale m t" by simp
next
  assume "is_stale m t"
  with assms(2) show "k \<in> fst ` set (filter (\<lambda>(k, m). is_stale m t) d)" by force
qed

lemma messages_sweep:
  assumes "distinct (map fst (messages s))"
  shows "messages (sweep t s) = filter (\<lambda>(k, m). \<not> is_stale m t) (messages s)"
proof -
  have "filter (\<lambda>p. fst p \<notin> set (stale_keys t s)) (messages s) =
        filter (\<lambda>(k, m). \<not> is_stale m t) (messages s)"
  proof (rule filter_cong [OF refl])
    fix p assume p: "p \<in> set (messages s)"
    obtain k m where km: "p = (k, m)" by (cases p)
    have "k \<in> fst ` set (filter (\<lambda>(k, m). is_stale m t) (messages s)) \<longleftrightarrow> is_stale m t"
      using p km by (intro stale_key_iff [OF assms]) simp
    then show "(fst p \<notin> set (stale_keys t s)) = (case p of (k, m) \<Rightarrow> \<not> is_stale m t)"
      by (simp add: km stale_keys_def)
  qed
  then show ?thesis by (simp add: sweep_def messages_fold_remove_key)
qed

lemma message_order_sweep:
  "distinct (message_order s) \<Longrightarrow>
   message_order (sweep t s) = filter (\<lambda>k. k \<notin> set (stale_keys t s)) (message_order s)"
  by (simp add: sweep_def message_order_fold_remove_key)

lemma overlay_inv_sweep:
  assumes "overlay_inv s"
  shows "overlay_inv (sweep t s)"
proof -
  from assms have dm: "distinct (map fst (messages s))" and dord: "distinct (message_order s)"
    by (simp_all add: overlay_inv_def)
  have m: "messages (sweep t s) = filter (\<lambda>p. fst p \<notin> set (stale_keys t s)) (messages s)"
    by (simp add: sweep_def messages_fold_remove_key)
  have ord: "message_order (sweep t s) = filter (\<lambda>k. k \<notin> set (stale_keys t s)) (message_order s)"
    by (rule message_order_sweep [OF dord])
  have len: "length (message_order (sweep t s)) \<le> MAX_MESSAGES * 2"
  proof -
    have "length (message_order (sweep t s)) \<le> length (message_order s)"
      unfolding ord by (rule length_filter_le)
    also have "\<dots> \<le> MAX_MESSAGES * 2"
      using assms by (simp add: overlay_inv_def)
    finally show ?thesis .
  qed
  have sub: "set (message_order (sweep t s)) \<subseteq> fst ` set (messages (sweep t s))"
    using assms unfolding ord m overlay_inv_def by force
  have dm': "distinct (map fst (messages (sweep t s)))"
    using dm by (simp add: m distinct_map_filter)
  have dord': "distinct (message_order (sweep t s))"
    using dord by (simp add: ord)
  have cv: "\<forall>p \<in> set (messages (sweep t s)). checksum_valid (snd p)"
    using assms by (simp add: m overlay_inv_def)
  from len sub dm' dord' cv show ?thesis
    unfolding overlay_inv_def by blast
qed

lemma overlay_inv_try_body: "overlay_inv s \<Longrightarrow> overlay_inv (snd (try_body drained t s))"
  using overlay_inv_apply_msgs [of s t] overlay_inv_sweep
  by (auto simp: try_body_def split: sum.splits prod.splits option.splits) (metis snd_conv)+

lemma overlay_inv_update_messages:
  "overlay_inv s \<Longrightarrow> overlay_inv (snd (update_messages drained t s))"
  using overlay_inv_try_body [of s drained t]
  by (auto simp: update_messages_def split: prod.splits)

lemma overlay_inv_check_debug_enabled:
  "overlay_inv s \<Longrightarrow> overlay_inv (snd (check_debug_enabled t flag s))"
  by (auto simp: check_debug_enabled_def Let_def overlay_inv_def)

lemma overlay_inv_init: "overlay_inv overlay_init"
  by (simp add: overlay_inv_def overlay_init_def)

lemma reachable_overlay_inv: "reachable s \<Longrightarrow> overlay_inv s"
  by (induction rule: reachable.induct)
    (simp_all add: overlay_inv_init overlay_inv_check_debug_enabled overlay_inv_update_messages)

lemma count_list_distinct: "distinct xs \<Longrightarrow> x \<in> set xs \<Longrightarrow> count_list xs x = 1"
  by (induction xs) auto

lemma filter_key_dict_setitem_other:
  "k' \<noteq> k \<Longrightarrow> filter (\<lambda>p. fst p = k) (dict_setitem k' v d) = filter (\<lambda>p. fst p = k) d"
  by (induction d) auto

lemma distinct_messages_apply_can_msg:
  "distinct (map fst (messages s)) \<Longrightarrow>
   distinct (map fst (messages (apply_can_msg t src addr dat s)))"
  by (simp add: messages_apply_can_msg distinct_dict_setitem)

section \<open>The example states\<close>

lemma reachable_active_empty: "reachable active_empty"
  unfolding active_empty_def by (intro reachable.intros)

lemma reachable_burst_state: "reachable (burst_state n)"
  unfolding burst_state_def by (intro reachable.intros reachable_active_empty)

lemma active_empty_eq:
  "active_empty = \<lparr>messages = [], message_order = [], can_sock = Some (SubSock ''can'' True 0),
     debug_enabled = True, last_param_check = 1\<rparr>"
  by (simp add: active_empty_def check_debug_enabled_def overlay_init_def Let_def)

lemma burst_state_3:
  "burst_state 3 =
     active_empty\<lparr>messages := [((0, 0), CANMessage_init 0 [] 0 1), ((0, 1), CANMessage_init 1 [] 0 1),
                               ((0, 2), CANMessage_init 2 [] 0 1)],
                  message_order := [(0, 0), (0, 1), (0, 2)]\<rparr>"
  by (simp add: burst_state_def active_empty_eq update_messages_def try_body_def
      apply_can_msg_def Let_def deque_append_def deque_remove_def MAX_MESSAGES_def
      sweep_def stale_keys_def is_stale_def CANMessage_init_def MESSAGE_TIMEOUT_def
      eval_nat_numeral)

lemma reachable_aged_frames: "reachable aged_frames"
  unfolding aged_frames_def by (intro reachable.intros reachable_active_empty)

lemma aged_frames_eq:
  "aged_frames =
     active_empty
       \<lparr>messages := [((1, 0x200), CANMessage_init 0x200 [] 1 1),
                     ((1, 0x201), CANMessage_init 0x201 [] 1 (11 / 10)),
                     ((1, 0x202), CANMessage_init 0x202 [] 1 (12 / 10))],
        message_order := [(1, 0x200), (1, 0x201), (1, 0x202)]\<rparr>"
  by (simp add: aged_frames_def active_empty_eq update_messages_def try_body_def
      apply_can_msg_def Let_def deque_append_def deque_remove_def MAX_MESSAGES_def
      sweep_def stale_keys_def is_stale_def CANMessage_init_def MESSAGE_TIMEOUT_def)

lemma reachable_mixed_state: "reachable mixed_state"
  unfolding mixed_state_def by (intro reachable.intros reachable_burst_state)

section \<open>The drain loop\<close>

lemma apply_can_msgs_append:
  "apply_can_msgs t (xs @ ys) s =
     (case apply_can_msgs t xs s of
        (Some e, s') \<Rightarrow> (Some e, s')
      | (None, s') \<Rightarrow> apply_can_msgs t ys s')"
  by (induction t xs s rule: apply_can_msgs.induct) simp_all

lemma apply_msgs_can_records: "apply_msgs t msgs s = apply_can_msgs t (can_records msgs) s"
proof (induction t msgs s rule: apply_msgs.induct)
  case (1 t s)
  show ?case by (simp add: can_records_def)
next
  case (2 t which cans msgs s)
  show ?case
  proof (cases "which = ''can''")
    case False
    with 2 show ?thesis by (simp add: can_records_def)
  next
    case True
    obtain r s' where r: "apply_can_msgs t cans s = (r, s')"
      by (cases "apply_can_msgs t cans s")
    show ?thesis
    proof (cases r)
      case None
      with True r "2.IH"(1) show ?thesis
        by (simp add: can_records_def apply_can_msgs_append)
    next
      case (Some e)
      with True r show ?thesis
        by (simp add: can_records_def apply_can_msgs_append)
    qed
  qed
qed

lemma apply_can_msgs_raises:
  "fst (apply_can_msgs t cs s) = (if Malformed \<in> set cs then Some MessagingError else None)"
  by (induction t cs s rule: apply_can_msgs.induct) simp_all

lemma apply_can_msgs_prefix:
  "snd (apply_can_msgs t cs s) = snd (apply_can_msgs t (takeWhile (\<lambda>c. c \<noteq> Malformed) cs) s)"
  by (induction t cs s rule: apply_can_msgs.induct) simp_all

lemma update_messages_never_raises: "fst (update_messages drained t s) = None"
  by (simp add: update_messages_def split: prod.splits)

section \<open>The rows of a render pass\<close>

lemma map_of_dict_contains:
  assumes "dict_contains k d"
  shows "\<exists>m. map_of d k = Some m \<and> dict_getitem d k = Inr m"
proof -
  from assms have "k \<in> fst ` set d" by (simp add: dict_contains_def)
  then have "map_of d k \<noteq> None" by (simp add: map_of_eq_None_iff)
  then obtain m where "map_of d k = Some m" by blast
  then show ?thesis by (simp add: dict_getitem_def)
qed

lemma message_rows_char:
  "\<exists>rows n. message_rows d now my ks y = Inr rows \<and>
     map (\<lambda>r. Some (fst r)) rows = map (map_of d) (take n (filter (\<lambda>k. dict_contains k d) ks)) \<and>
     (\<forall>r \<in> set rows. snd (snd r) = row_color (fst r) now)"
proof (induction ks arbitrary: y)
  case Nil
  show ?case by simp
next
  case (Cons k ks)
  show ?case
  proof (cases "y \<ge> my")
    case True
    then have "message_rows d now my (k # ks) y = Inr []" by simp
    then show ?thesis by (intro exI [of _ "[]"] exI [of _ 0]) simp
  next
    case far: False
    show ?thesis
    proof (cases "dict_contains k d")
      case False
      have eq: "message_rows d now my (k # ks) y = message_rows d now my ks y"
        using far False by simp
      have flt: "filter (\<lambda>k. dict_contains k d) (k # ks) = filter (\<lambda>k. dict_contains k d) ks"
        using False by simp
      show ?thesis unfolding eq flt by (rule Cons.IH)
    next
      case True
      from map_of_dict_contains [OF True]
      obtain m where m: "map_of d k = Some m" "dict_getitem d k = Inr m"
        by (elim exE conjE)
      from Cons.IH [of "y + (LINE_HEIGHT - 4)"]
      obtain rows n where r1: "message_rows d now my ks (y + (LINE_HEIGHT - 4)) = Inr rows"
        and r2: "map (\<lambda>r. Some (fst r)) rows =
                 map (map_of d) (take n (filter (\<lambda>k. dict_contains k d) ks))"
        and r3: "\<forall>r \<in> set rows. snd (snd r) = row_color (fst r) now"
        by (elim exE conjE)
      have a: "message_rows d now my (k # ks) y = Inr ((m, y, row_color m now) # rows)"
        using far True m(2) r1 by simp
      have b: "map (\<lambda>r. Some (fst r)) ((m, y, row_color m now) # rows) =
          map (map_of d) (take (Suc n) (filter (\<lambda>k. dict_contains k d) (k # ks)))"
        using True m(1) r2 by simp
      have c: "\<forall>r \<in> set ((m, y, row_color m now) # rows). snd (snd r) = row_color (fst r) now"
        using r3 by simp
      from a b c show ?thesis
        by (intro exI [of _ "(m, y, row_color m now) # rows"] exI [of _ "Suc n"] conjI)
    qed
  qed
qed

lemma rev_recent_keys: "rev (recent_keys s) = take MAX_MESSAGES (rev (message_order s))"
  by (simp add: recent_keys_def take_rev)

lemma draw_messages_char:
  "\<exists>rows n. fst (draw_messages rect now s) = Inr rows \<and>
     map (\<lambda>r. Some (fst r)) rows =
       map (map_of (messages s))
         (take n (filter (\<lambda>k. dict_contains k (messages s))
            (take MAX_MESSAGES (rev (message_order s))))) \<and>
     (\<forall>r \<in> set rows. snd (snd r) = row_color (fst r) now)"
  using message_rows_char [of "messages s" now "max_y rect" "rev (recent_keys s)"
      "col_header_y rect + LINE_HEIGHT"]
  by (simp add: draw_messages_def rev_recent_keys)

lemma rows_from_store:
  assumes "map (\<lambda>r. Some (fst r)) rows = map (map_of d) ks" and "r \<in> set rows"
  shows "\<exists>k \<in> set ks. map_of d k = Some (fst r)"
proof -
  from assms(2) have "Some (fst r) \<in> set (map (\<lambda>r. Some (fst r)) rows)" by force
  with assms(1) have "Some (fst r) \<in> set (map (map_of d) ks)" by simp
  then show ?thesis by auto
qed

lemma draw_messages_rows:
  "\<exists>rows. fst (draw_messages rect now s) = Inr rows \<and> length rows \<le> MAX_MESSAGES \<and>
     (\<forall>r \<in> set rows. snd (snd r) = row_color (fst r) now \<and>
        (\<exists>k \<in> set (message_order s). map_of (messages s) k = Some (fst r)))"
proof -
  let ?ks = "filter (\<lambda>k. dict_contains k (messages s)) (take MAX_MESSAGES (rev (message_order s)))"
  from draw_messages_char [of rect now s]
  obtain rows n where r1: "fst (draw_messages rect now s) = Inr rows"
    and r2: "map (\<lambda>r. Some (fst r)) rows = map (map_of (messages s)) (take n ?ks)"
    and r3: "\<forall>r \<in> set rows. snd (snd r) = row_color (fst r) now"
    by (elim exE conjE)
  have "length rows = length (map (\<lambda>r. Some (fst r)) rows)" by simp
  also have "\<dots> = length (take n ?ks)" by (simp only: r2 length_map)
  also have "\<dots> \<le> length ?ks" by simp
  also have "\<dots> \<le> length (take MAX_MESSAGES (rev (message_order s)))" by (rule length_filter_le)
  also have "\<dots> \<le> MAX_MESSAGES" by simp
  finally have len: "length rows \<le> MAX_MESSAGES" .
  have sub: "set (take n ?ks) \<subseteq> set (message_order s)"
  proof
    fix k assume "k \<in> set (take n ?ks)"
    then have "k \<in> set ?ks" by (rule in_set_takeD)
    then have "k \<in> set (take MAX_MESSAGES (rev (message_order s)))" by simp
    then have "k \<in> set (rev (message_order s))" by (rule in_set_takeD)
    then show "k \<in> set (message_order s)" by simp
  qed
  have "\<forall>r \<in> set rows. snd (snd r) = row_color (fst r) now \<and>
        (\<exists>k \<in> set (message_order s). map_of (messages s) k = Some (fst r))"
  proof
    fix r assume r: "r \<in> set rows"
    from rows_from_store [OF r2 r] obtain k where "k \<in> set (take n ?ks)"
      and "map_of (messages s) k = Some (fst r)" by (elim bexE)
    with sub r3 r show "snd (snd r) = row_color (fst r) now \<and>
        (\<exists>k \<in> set (message_order s). map_of (messages s) k = Some (fst r))" by blast
  qed
  with r1 len show ?thesis by (intro exI [of _ rows] conjI)
qed

lemma snd_draw_messages: "snd (draw_messages rect now s) = s"
  by (simp add: draw_messages_def)

lemma snd_draw_overlay: "snd (draw_overlay rect now s) = s"
proof -
  obtain ox oy ow oh where r: "overlay_rect rect = Rectangle ox oy ow oh"
    by (cases "overlay_rect rect")
  obtain res s' where d: "draw_messages rect now s = (res, s')"
    by (cases "draw_messages rect now s")
  with snd_draw_messages [of rect now s] have s': "s' = s" by simp
  show ?thesis
    by (cases res) (simp_all add: draw_overlay_def r d s')
qed

lemma draw_dangling_key:
  "fst (draw_messages (Rectangle 0 0 2160 1080) 1 dangling_key) =
     Inr [(CANMessage_init 1 [0x2A] 0 1, 862, TEXT_COLOR)]"
  by (simp add: draw_messages_def dangling_key_def active_empty_eq recent_keys_def MAX_MESSAGES_def
      max_y_def col_header_y_def header_y_def overlay_rect_def PADDING_def LINE_HEIGHT_def
      dict_contains_def dict_getitem_def row_color_def is_stale_def MESSAGE_TIMEOUT_def
      CANMessage_init_def)

lemma draw_mixed_state:
  "fst (draw_messages (Rectangle 0 0 1920 1080) (16 / 5) mixed_state) =
     Inr [(CANMessage_init 7 [0x11] 0 (5 / 2), 862, TEXT_COLOR),
          (CANMessage_init 1 [] 0 1, 884, STALE_TEXT_COLOR),
          (CANMessage_init 0 [] 0 1, 906, STALE_TEXT_COLOR)]"
  by code_simp

lemma message_rows_room:
  "\<exists>rows. message_rows d now my ks y = Inr rows \<and>
     map (\<lambda>r. fst (snd r)) rows =
       map (\<lambda>i. y + (LINE_HEIGHT - 4) * of_nat i) [0..<length rows] \<and>
     (\<forall>r \<in> set rows. fst (snd r) < my) \<and>
     (length rows = length (filter (\<lambda>k. dict_contains k d) ks) \<or>
      my \<le> y + (LINE_HEIGHT - 4) * of_nat (length rows))"
proof (induction ks arbitrary: y)
  case Nil
  show ?case by simp
next
  case (Cons k ks)
  show ?case
  proof (cases "y \<ge> my")
    case True
    then have "message_rows d now my (k # ks) y = Inr []" by simp
    with True show ?thesis by (intro exI [of _ "[]"]) simp
  next
    case far: False
    show ?thesis
    proof (cases "dict_contains k d")
      case False
      have eq: "message_rows d now my (k # ks) y = message_rows d now my ks y"
        using far False by simp
      have flt: "filter (\<lambda>k. dict_contains k d) (k # ks) = filter (\<lambda>k. dict_contains k d) ks"
        using False by simp
      show ?thesis unfolding eq flt by (rule Cons.IH)
    next
      case True
      from map_of_dict_contains [OF True]
      obtain m where m: "map_of d k = Some m" "dict_getitem d k = Inr m"
        by (elim exE conjE)
      let ?y' = "y + (LINE_HEIGHT - 4)"
      from Cons.IH [of ?y']
      obtain rows where r1: "message_rows d now my ks ?y' = Inr rows"
        and r2: "map (\<lambda>r. fst (snd r)) rows =
                 map (\<lambda>i. ?y' + (LINE_HEIGHT - 4) * of_nat i) [0..<length rows]"
        and r3: "\<forall>r \<in> set rows. fst (snd r) < my"
        and r4: "length rows = length (filter (\<lambda>k. dict_contains k d) ks) \<or>
                 my \<le> ?y' + (LINE_HEIGHT - 4) * of_nat (length rows)"
        by (elim exE conjE)
      let ?rows = "(m, y, row_color m now) # rows"
      have a: "message_rows d now my (k # ks) y = Inr ?rows"
        using far True m(2) r1 by simp
      have "map (\<lambda>i. y + (LINE_HEIGHT - 4) * of_nat i) [0..<length ?rows] =
            y # map (\<lambda>i. ?y' + (LINE_HEIGHT - 4) * of_nat i) [0..<length rows]"
        by (simp add: upt_conv_Cons map_Suc_upt [symmetric] algebra_simps del: upt_Suc)
      then have b: "map (\<lambda>r. fst (snd r)) ?rows =
            map (\<lambda>i. y + (LINE_HEIGHT - 4) * of_nat i) [0..<length ?rows]"
        using r2 by simp
      have c: "\<forall>r \<in> set ?rows. fst (snd r) < my"
        using r3 far by simp
      have e: "length ?rows = length (filter (\<lambda>k. dict_contains k d) (k # ks)) \<or>
               my \<le> y + (LINE_HEIGHT - 4) * of_nat (length ?rows)"
        using r4 True by (auto simp: algebra_simps)
      from a b c e show ?thesis
        by (intro exI [of _ ?rows] conjI)
    qed
  qed
qed

lemma draw_messages_room:
  "\<exists>rows. fst (draw_messages rect now s) = Inr rows \<and>
     (length rows =
        length (filter (\<lambda>k. dict_contains k (messages s))
                  (take MAX_MESSAGES (rev (message_order s)))) \<or>
      max_y rect \<le>
        col_header_y rect + LINE_HEIGHT + (LINE_HEIGHT - 4) * of_nat (length rows))"
proof -
  from message_rows_room [of "messages s" now "max_y rect" "rev (recent_keys s)"
      "col_header_y rect + LINE_HEIGHT"]
  obtain rows where "message_rows (messages s) now (max_y rect) (rev (recent_keys s))
        (col_header_y rect + LINE_HEIGHT) = Inr rows"
    and "length rows = length (filter (\<lambda>k. dict_contains k (messages s)) (rev (recent_keys s))) \<or>
      max_y rect \<le> col_header_y rect + LINE_HEIGHT + (LINE_HEIGHT - 4) * of_nat (length rows)"
    by (elim exE conjE)
  then show ?thesis
    by (intro exI [of _ rows]) (simp add: draw_messages_def rev_recent_keys)
qed

lemma row_color_cases:
  "row_color m now =
     (if now - timestamp m > 2 then STALE_TEXT_COLOR
      else if checksum_valid m then TEXT_COLOR else ERROR_TEXT_COLOR)"
  by (simp add: row_color_def is_stale_def MESSAGE_TIMEOUT_def)

lemma snd_render:
  "snd (render rect t_check flag drained t_update t_draw s) =
     (if fst (check_debug_enabled t_check flag s)
      then snd (update_messages drained t_update (snd (check_debug_enabled t_check flag s)))
      else snd (check_debug_enabled t_check flag s))"
proof -
  obtain en s1 where c: "check_debug_enabled t_check flag s = (en, s1)"
    by (cases "check_debug_enabled t_check flag s")
  obtain s2 where u: "update_messages drained t_update s1 = (None, s2)"
    using update_messages_never_raises [of drained t_update s1]
    by (cases "update_messages drained t_update s1") simp
  show ?thesis by (simp add: render_def c u snd_draw_overlay)
qed

lemma reachable_render:
  "reachable s \<Longrightarrow> reachable (snd (render rect t_check flag drained t_update t_draw s))"
  by (simp add: snd_render reachable_check reachable_update)

lemma fst_render_never_raises:
  "\<exists>cmds. fst (render rect t_check flag drained t_update t_draw s) = Inr cmds"
proof -
  obtain en s1 where c: "check_debug_enabled t_check flag s = (en, s1)"
    by (cases "check_debug_enabled t_check flag s")
  obtain s2 where u: "update_messages drained t_update s1 = (None, s2)"
    using update_messages_never_raises [of drained t_update s1]
    by (cases "update_messages drained t_update s1") simp
  obtain ox oy ow oh where r: "overlay_rect rect = Rectangle ox oy ow oh"
    by (cases "overlay_rect rect")
  from draw_messages_rows [of rect t_draw s2]
  obtain rows where rows: "fst (draw_messages rect t_draw s2) = Inr rows" by blast
  then have d: "draw_messages rect t_draw s2 = (Inr rows, s2)"
    using snd_draw_messages [of rect t_draw s2] by (cases "draw_messages rect t_draw s2") simp
  show ?thesis
    by (cases en) (simp_all add: render_def c u draw_overlay_def r d)
qed

section \<open>Last write wins within one update\<close>

lemma distinct_messages_apply_can_msgs:
  "distinct (map fst (messages s)) \<Longrightarrow> distinct (map fst (messages (snd (apply_can_msgs t cs s))))"
  by (induction t cs s rule: apply_can_msgs.induct) (simp_all add: distinct_messages_apply_can_msg)

lemma entry_apply_can_msgs_other:
  "\<forall>dat'. CanData src addr dat' \<notin> set cs \<Longrightarrow>
   filter (\<lambda>p. fst p = (src, addr)) (messages (snd (apply_can_msgs t cs s))) =
   filter (\<lambda>p. fst p = (src, addr)) (messages s)"
proof (induction t cs s rule: apply_can_msgs.induct)
  case (1 t s)
  show ?case by simp
next
  case (2 t cs s)
  show ?case by simp
next
  case (3 t src' addr' dat' cs s)
  from "3.prems" have ne: "(src', addr') \<noteq> (src, addr)" by auto
  from "3.prems" have rest: "\<forall>dat'. CanData src addr dat' \<notin> set cs" by auto
  show ?case
    using "3.IH" [OF rest] ne
    by (simp add: messages_apply_can_msg filter_key_dict_setitem_other)
qed

lemma entry_apply_can_msgs_last:
  assumes "distinct (map fst (messages s))"
    and "Malformed \<notin> set pre"
    and "\<forall>dat'. CanData src addr dat' \<notin> set post"
  shows "filter (\<lambda>p. fst p = (src, addr))
           (messages (snd (apply_can_msgs t (pre @ CanData src addr dat # post) s))) =
         [((src, addr), CANMessage_init addr dat src t)]"
proof -
  obtain s1 where s1: "apply_can_msgs t pre s = (None, s1)"
    using apply_can_msgs_raises [of t pre s] assms(2)
    by (cases "apply_can_msgs t pre s") simp
  have d1: "distinct (map fst (messages s1))"
    using distinct_messages_apply_can_msgs [OF assms(1), of t pre] s1 by simp
  have "filter (\<lambda>p. fst p = (src, addr))
           (messages (snd (apply_can_msgs t (pre @ CanData src addr dat # post) s))) =
        filter (\<lambda>p. fst p = (src, addr)) (messages (apply_can_msg t src addr dat s1))"
    using entry_apply_can_msgs_other [OF assms(3), of t "apply_can_msg t src addr dat s1"]
    by (simp add: apply_can_msgs_append s1)
  also have "\<dots> = [((src, addr), CANMessage_init addr dat src t)]"
    using entry_dict_setitem [OF d1] by (simp add: messages_apply_can_msg)
  finally show ?thesis .
qed

section \<open>Sequences of updates\<close>

lemma can_sock_apply_can_msgs: "can_sock (snd (apply_can_msgs t cs s)) = can_sock s"
  by (induction t cs s rule: apply_can_msgs.induct) (simp_all add: apply_can_msg_def Let_def)

lemma can_sock_fold_remove_key: "can_sock (fold remove_key ks s) = can_sock s"
  by (induction ks arbitrary: s) (simp_all add: remove_key_def Let_def)

lemma malformed_not_applied: "Malformed \<notin> set (applied_records drained)"
proof (cases drained)
  case (Inl e)
  then show ?thesis by (simp add: applied_records_def)
next
  case (Inr msgs)
  have "Malformed \<notin> set (takeWhile (\<lambda>c. c \<noteq> Malformed) (can_records msgs))"
    using set_takeWhileD [of Malformed "\<lambda>c. c \<noteq> Malformed" "can_records msgs"] by blast
  with Inr show ?thesis by (simp add: applied_records_def)
qed

lemma update_messages_state:
  assumes "can_sock s \<noteq> None"
  shows "snd (update_messages drained t s) =
         (if sweep_runs drained then sweep t (snd (apply_can_msgs t (applied_records drained) s))
          else snd (apply_can_msgs t (applied_records drained) s))"
proof (cases drained)
  case (Inl e)
  with assms show ?thesis
    by (auto simp: update_messages_def try_body_def applied_records_def sweep_runs_def)
next
  case (Inr msgs)
  obtain sock where sock: "can_sock s = Some sock" using assms by auto
  obtain r s' where r: "apply_can_msgs t (can_records msgs) s = (r, s')"
    by (cases "apply_can_msgs t (can_records msgs) s")
  show ?thesis
  proof (cases "Malformed \<in> set (can_records msgs)")
    case True
    with apply_can_msgs_raises [of t "can_records msgs" s] r
    have r': "r = Some MessagingError" by simp
    from apply_can_msgs_prefix [of t "can_records msgs" s] r
    have "s' = snd (apply_can_msgs t (takeWhile (\<lambda>c. c \<noteq> Malformed) (can_records msgs)) s)"
      by simp
    with True Inr r r' sock show ?thesis
      by (simp add: update_messages_def try_body_def apply_msgs_can_records
          applied_records_def sweep_runs_def)
  next
    case False
    with apply_can_msgs_raises [of t "can_records msgs" s] r
    have r': "r = None" by simp
    from apply_can_msgs_prefix [of t "can_records msgs" s] r
    have "s' = snd (apply_can_msgs t (takeWhile (\<lambda>c. c \<noteq> Malformed) (can_records msgs)) s)"
      by simp
    with False Inr r r' sock show ?thesis
      by (simp add: update_messages_def try_body_def apply_msgs_can_records
          applied_records_def sweep_runs_def)
  qed
qed

lemma can_sock_update_messages: "can_sock (snd (update_messages drained t s)) = can_sock s"
proof (cases "can_sock s = None")
  case True
  then show ?thesis by (simp add: update_messages_def)
next
  case False
  show ?thesis
    by (simp add: update_messages_state [OF False] sweep_def can_sock_fold_remove_key
        can_sock_apply_can_msgs)
qed

lemma distinct_messages_update_messages:
  assumes "distinct (map fst (messages s))"
  shows "distinct (map fst (messages (snd (update_messages drained t s))))"
proof (cases "can_sock s = None")
  case True
  with assms show ?thesis by (simp add: update_messages_def)
next
  case False
  have d: "distinct (map fst (messages (snd (apply_can_msgs t (applied_records drained) s))))"
    by (rule distinct_messages_apply_can_msgs [OF assms])
  show ?thesis
    by (simp add: update_messages_state [OF False] messages_sweep [OF d] d distinct_map_filter)
qed

lemma entry_update_messages_applied:
  assumes "distinct (map fst (messages s))" and "can_sock s \<noteq> None"
    and "applied_records drained = pre @ CanData src addr dat # post"
    and "\<forall>dat'. CanData src addr dat' \<notin> set post"
  shows "filter (\<lambda>p. fst p = (src, addr)) (messages (snd (update_messages drained t s))) =
         [((src, addr), CANMessage_init addr dat src t)]"
proof -
  let ?s1 = "snd (apply_can_msgs t (applied_records drained) s)"
  have "Malformed \<notin> set pre"
    using malformed_not_applied [of drained] by (simp add: assms(3))
  then have entry: "filter (\<lambda>p. fst p = (src, addr)) (messages ?s1) =
      [((src, addr), CANMessage_init addr dat src t)]"
    using entry_apply_can_msgs_last [OF assms(1) _ assms(4), of pre t dat]
    by (simp add: assms(3))
  have d1: "distinct (map fst (messages ?s1))"
    by (rule distinct_messages_apply_can_msgs [OF assms(1)])
  have "filter (\<lambda>p. fst p = (src, addr)) (messages (sweep t ?s1)) =
        filter (\<lambda>(k, m). \<not> is_stale m t) (filter (\<lambda>p. fst p = (src, addr)) (messages ?s1))"
    by (simp add: messages_sweep [OF d1] conj_commute)
  also have "\<dots> = [((src, addr), CANMessage_init addr dat src t)]"
    by (simp add: entry is_stale_def CANMessage_init_def MESSAGE_TIMEOUT_def)
  finally show ?thesis
    using entry by (simp add: update_messages_state [OF assms(2)])
qed

lemma entry_update_messages_other:
  assumes "distinct (map fst (messages s))" and "can_sock s \<noteq> None"
    and "\<forall>dat'. CanData src addr dat' \<notin> set (applied_records drained)"
  shows "filter (\<lambda>p. fst p = (src, addr)) (messages (snd (update_messages drained t s))) =
         filter (\<lambda>(k, m). \<not> (sweep_runs drained \<and> is_stale m t))
           (filter (\<lambda>p. fst p = (src, addr)) (messages s))"
proof -
  let ?s1 = "snd (apply_can_msgs t (applied_records drained) s)"
  have entry: "filter (\<lambda>p. fst p = (src, addr)) (messages ?s1) =
      filter (\<lambda>p. fst p = (src, addr)) (messages s)"
    by (rule entry_apply_can_msgs_other [OF assms(3)])
  have d1: "distinct (map fst (messages ?s1))"
    by (rule distinct_messages_apply_can_msgs [OF assms(1)])
  have "filter (\<lambda>p. fst p = (src, addr)) (messages (sweep t ?s1)) =
        filter (\<lambda>(k, m). \<not> is_stale m t) (filter (\<lambda>p. fst p = (src, addr)) (messages ?s1))"
    by (simp add: messages_sweep [OF d1] conj_commute)
  then show ?thesis
    using entry by (simp add: update_messages_state [OF assms(2)])
qed

lemma run_updates_Cons:
  "run_updates ((drained, t) # calls) s = run_updates calls (snd (update_messages drained t s))"
  by (simp add: run_updates_def)

lemma run_updates_append:
  "run_updates (xs @ ys) s = run_updates ys (run_updates xs s)"
  by (simp add: run_updates_def)

lemma can_sock_run_updates: "can_sock (run_updates calls s) = can_sock s"
proof (induction calls arbitrary: s)
  case Nil
  show ?case by (simp add: run_updates_def)
next
  case (Cons c calls)
  obtain d t where c: "c = (d, t)" by (cases c)
  show ?case by (simp add: c run_updates_Cons Cons.IH can_sock_update_messages)
qed

lemma distinct_messages_run_updates:
  "distinct (map fst (messages s)) \<Longrightarrow> distinct (map fst (messages (run_updates calls s)))"
proof (induction calls arbitrary: s)
  case Nil
  then show ?case by (simp add: run_updates_def)
next
  case (Cons c calls)
  obtain d t where c: "c = (d, t)" by (cases c)
  show ?case
    using Cons.IH [OF distinct_messages_update_messages [OF Cons.prems, of d t]]
    by (simp add: c run_updates_Cons)
qed

lemma entry_run_updates_other:
  assumes "distinct (map fst (messages s))" and "can_sock s \<noteq> None"
    and "\<forall>(d, t) \<in> set calls. \<forall>dat'. CanData src addr dat' \<notin> set (applied_records d)"
  shows "filter (\<lambda>p. fst p = (src, addr)) (messages (run_updates calls s)) =
         filter (\<lambda>(k, m). \<not> (\<exists>(d, t) \<in> set calls. sweep_runs d \<and> is_stale m t))
           (filter (\<lambda>p. fst p = (src, addr)) (messages s))"
  using assms
proof (induction calls arbitrary: s)
  case Nil
  show ?case by (simp add: run_updates_def)
next
  case (Cons c calls)
  obtain d t where c: "c = (d, t)" by (cases c)
  let ?s1 = "snd (update_messages d t s)"
  have d1: "distinct (map fst (messages ?s1))"
    by (rule distinct_messages_update_messages [OF Cons.prems(1)])
  have sock1: "can_sock ?s1 \<noteq> None"
    using Cons.prems(2) by (simp add: can_sock_update_messages)
  have here: "\<forall>dat'. CanData src addr dat' \<notin> set (applied_records d)"
    using Cons.prems(3) c by simp
  have rest: "\<forall>(d, t) \<in> set calls. \<forall>dat'. CanData src addr dat' \<notin> set (applied_records d)"
    using Cons.prems(3) by simp
  have "filter (\<lambda>p. fst p = (src, addr)) (messages (run_updates (c # calls) s)) =
        filter (\<lambda>(k, m). \<not> (\<exists>(d, t) \<in> set calls. sweep_runs d \<and> is_stale m t))
          (filter (\<lambda>p. fst p = (src, addr)) (messages ?s1))"
    using Cons.IH [OF d1 sock1 rest] by (simp add: c run_updates_Cons)
  also have "\<dots> =
        filter (\<lambda>(k, m). \<not> (\<exists>(d, t) \<in> set calls. sweep_runs d \<and> is_stale m t))
          (filter (\<lambda>(k, m). \<not> (sweep_runs d \<and> is_stale m t))
            (filter (\<lambda>p. fst p = (src, addr)) (messages s)))"
    by (simp only: entry_update_messages_other [OF Cons.prems(1) Cons.prems(2) here])
  also have "\<dots> =
        filter (\<lambda>(k, m). \<not> (\<exists>(d, t) \<in> set (c # calls). sweep_runs d \<and> is_stale m t))
          (filter (\<lambda>p. fst p = (src, addr)) (messages s))"
    by (rule filter_cong [OF refl, THEN trans [OF filter_filter]]) (auto simp: c)
  finally show ?case .
qed

section \<open>The clock reading of a render pass\<close>

lemma row_color_clock:
  "is_stale m now = is_stale m now' \<Longrightarrow> row_color m now = row_color m now'"
  by (simp add: row_color_def)

lemma message_rows_clock:
  assumes "\<forall>p \<in> set d. is_stale (snd p) now = is_stale (snd p) now'"
  shows "message_rows d now my ks y = message_rows d now' my ks y"
proof (induction ks arbitrary: y)
  case Nil
  show ?case by simp
next
  case (Cons k ks)
  show ?case
  proof (cases "dict_contains k d")
    case False
    with Cons.IH [of y] show ?thesis by simp
  next
    case True
    from map_of_dict_contains [OF True]
    obtain m where m: "map_of d k = Some m" "dict_getitem d k = Inr m"
      by (elim exE conjE)
    from m(1) have "(k, m) \<in> set d" by (rule map_of_SomeD)
    with assms have "is_stale m now = is_stale m now'" by force
    then have c: "row_color m now = row_color m now'" by (rule row_color_clock)
    have step: "message_rows d t my (k # ks) y =
        (if y \<ge> my then Inr []
         else case message_rows d t my ks (y + (LINE_HEIGHT - 4)) of
                Inl e \<Rightarrow> Inl e
              | Inr rows \<Rightarrow> Inr ((m, y, row_color m t) # rows))" for t
      using True m(2) by simp
    show ?thesis
      by (simp only: step Cons.IH [of "y + (LINE_HEIGHT - 4)"] c)
  qed
qed

lemma fst_draw_messages_clock:
  assumes "\<forall>p \<in> set (messages s). is_stale (snd p) now = is_stale (snd p) now'"
  shows "fst (draw_messages rect now s) = fst (draw_messages rect now' s)"
  by (simp add: draw_messages_def message_rows_clock [OF assms])

lemma fst_draw_overlay_clock:
  assumes "\<forall>p \<in> set (messages s). is_stale (snd p) now = is_stale (snd p) now'"
  shows "fst (draw_overlay rect now s) = fst (draw_overlay rect now' s)"
proof -
  have "draw_messages rect now s = draw_messages rect now' s"
    using fst_draw_messages_clock [OF assms, of rect] snd_draw_messages [of rect now s]
      snd_draw_messages [of rect now' s]
    by (simp add: prod_eq_iff)
  then show ?thesis by (simp only: draw_overlay_def)
qed

lemma burst_state_1:
  "burst_state 1 =
     active_empty\<lparr>messages := [((0, 0), CANMessage_init 0 [] 0 1)], message_order := [(0, 0)]\<rparr>"
  by (simp add: burst_state_def active_empty_eq update_messages_def try_body_def
      apply_can_msg_def Let_def deque_append_def deque_remove_def MAX_MESSAGES_def
      sweep_def stale_keys_def is_stale_def CANMessage_init_def MESSAGE_TIMEOUT_def)

lemma render_twice_rows:
  "fst (draw_messages (Rectangle 0 0 1920 1080) 3 (burst_state 1)) =
     Inr [(CANMessage_init 0 [] 0 1, 862, TEXT_COLOR)] \<and>
   fst (draw_messages (Rectangle 0 0 1920 1080) (31 / 10) (burst_state 1)) =
     Inr [(CANMessage_init 0 [] 0 1, 862, STALE_TEXT_COLOR)]"
  by code_simp

section \<open>The recency bound\<close>

text \<open>
  C1, as stated, fails: after a drain of 41 records with distinct keys the deque holds 40
  keys and the dict 41, so the keys of the dict are not a subset of the keys of the deque
  (the key the deque dropped is still in the dict).
\<close>

theorem recency_bound_counterexample:
  "length (burst 41) = 41 \<and>
   length (messages (burst_state 41)) = 41 \<and>
   length (message_order (burst_state 41)) = 40 \<and>
   \<not> fst ` set (messages (burst_state 41)) \<subseteq> set (message_order (burst_state 41))"
  by code_simp

text \<open>
  C1, amended.  From any reachable state, after \<open>_update_messages\<close> has applied
  whatever was drained (in particular more than \<open>2 * MAX_MESSAGES\<close> records with
  distinct keys), the deque holds at most \<open>2 * MAX_MESSAGES\<close> keys and every key of
  the deque is a key of the dict.
\<close>

theorem recency_bound:
  assumes "reachable s"
  shows "length (message_order (snd (update_messages drained t s))) \<le> 2 * MAX_MESSAGES \<and>
         set (message_order (snd (update_messages drained t s)))
           \<subseteq> fst ` set (messages (snd (update_messages drained t s)))"
proof -
  have "reachable (snd (update_messages drained t s))"
    using assms by (rule reachable_update)
  then have "overlay_inv (snd (update_messages drained t s))"
    by (rule reachable_overlay_inv)
  then show ?thesis by (simp add: overlay_inv_def)
qed

theorem recency_bound_witness:
  "length (message_order (snd (update_messages (Inr [Event ''can'' (burst 41)]) 1 active_empty)))
     \<le> 2 * MAX_MESSAGES \<and>
   set (message_order (snd (update_messages (Inr [Event ''can'' (burst 41)]) 1 active_empty)))
     \<subseteq> fst ` set (messages (snd (update_messages (Inr [Event ''can'' (burst 41)]) 1 active_empty)))"
  by (rule recency_bound [OF reachable_active_empty])

section \<open>Errors during the drain\<close>

text \<open>
  C2, as stated, fails: a drain whose second sub-frame is malformed raises inside the
  loop; the exception is caught, but the first sub-frame has been applied, so the state
  after the call is not the state before it.
\<close>

theorem error_absorption_counterexample:
  "fst (try_body partial_drain 1 active_empty) = Some MessagingError \<and>
   fst (update_messages partial_drain 1 active_empty) = None \<and>
   snd (update_messages partial_drain 1 active_empty) \<noteq> active_empty \<and>
   messages (snd (update_messages partial_drain 1 active_empty)) =
     [((0, 0x123), CANMessage_init 0x123 [0x11, 0x22] 0 1)] \<and>
   message_order (snd (update_messages partial_drain 1 active_empty)) = [(0, 0x123)]"
  by (simp add: partial_drain_def active_empty_eq update_messages_def try_body_def
      apply_can_msg_def Let_def deque_append_def deque_remove_def MAX_MESSAGES_def)

text \<open>
  C2, amended.  No exception leaves \<open>_update_messages\<close>.  When \<open>drain_sock\<close> itself
  raises, the state is unchanged (nothing is applied and nothing is swept).  When a
  sub-frame raises, the sub-frames before it stay applied and the sweep is skipped.  Only
  a drain without error is followed by the sweep.
\<close>

theorem error_absorption:
  "fst (update_messages drained t s) = None \<and>
   (drained = Inl e \<longrightarrow> update_messages drained t s = (None, s)) \<and>
   (can_sock s \<noteq> None \<and> drained = Inr msgs \<and> Malformed \<in> set (can_records msgs) \<longrightarrow>
      fst (try_body drained t s) = Some MessagingError \<and>
      update_messages drained t s =
        (None, snd (apply_can_msgs t (takeWhile (\<lambda>c. c \<noteq> Malformed) (can_records msgs)) s))) \<and>
   (can_sock s \<noteq> None \<and> drained = Inr msgs \<and> Malformed \<notin> set (can_records msgs) \<longrightarrow>
      fst (try_body drained t s) = None \<and>
      update_messages drained t s = (None, sweep t (snd (apply_can_msgs t (can_records msgs) s))))"
proof (intro conjI impI)
  show "fst (update_messages drained t s) = None"
    by (simp add: update_messages_def split: prod.splits)
next
  assume "drained = Inl e"
  then show "update_messages drained t s = (None, s)"
    by (simp add: update_messages_def try_body_def)
next
  assume "can_sock s \<noteq> None \<and> drained = Inr msgs \<and> Malformed \<in> set (can_records msgs)"
  then obtain sock where a: "can_sock s = Some sock" "drained = Inr msgs"
    "Malformed \<in> set (can_records msgs)" by auto
  obtain r s' where r: "apply_can_msgs t (can_records msgs) s = (r, s')"
    by (cases "apply_can_msgs t (can_records msgs) s")
  from a apply_can_msgs_raises [of t "can_records msgs" s] r
  have r': "r = Some MessagingError" by simp
  from apply_can_msgs_prefix [of t "can_records msgs" s] r
  have s': "s' = snd (apply_can_msgs t (takeWhile (\<lambda>c. c \<noteq> Malformed) (can_records msgs)) s)"
    by simp
  show "fst (try_body drained t s) = Some MessagingError"
    using a r r' by (simp add: try_body_def apply_msgs_can_records)
  show "update_messages drained t s =
        (None, snd (apply_can_msgs t (takeWhile (\<lambda>c. c \<noteq> Malformed) (can_records msgs)) s))"
    using a r r' s' by (simp add: update_messages_def try_body_def apply_msgs_can_records)
next
  assume "can_sock s \<noteq> None \<and> drained = Inr msgs \<and> Malformed \<notin> set (can_records msgs)"
  then obtain sock where a: "can_sock s = Some sock" "drained = Inr msgs"
    "Malformed \<notin> set (can_records msgs)" by auto
  obtain r s' where r: "apply_can_msgs t (can_records msgs) s = (r, s')"
    by (cases "apply_can_msgs t (can_records msgs) s")
  from a apply_can_msgs_raises [of t "can_records msgs" s] r
  have r': "r = None" by simp
  show "fst (try_body drained t s) = None"
    using a r r' by (simp add: try_body_def apply_msgs_can_records)
  show "update_messages drained t s = (None, sweep t (snd (apply_can_msgs t (can_records msgs) s)))"
    using a r r' by (simp add: update_messages_def try_body_def apply_msgs_can_records)
qed

theorem error_absorption_witness:
  "update_messages (Inl MessagingError) (31 / 10) aged_frames = (None, aged_frames) \<and>
   update_messages (Inr []) (31 / 10) aged_frames \<noteq> (None, aged_frames) \<and>
   update_messages partial_drain 1 active_empty =
     (None, active_empty\<lparr>messages := [((0, 0x123), CANMessage_init 0x123 [0x11, 0x22] 0 1)],
                          message_order := [(0, 0x123)]\<rparr>)"
  using error_absorption [of "Inl MessagingError" "31 / 10" aged_frames MessagingError]
    error_absorption [of "Inr []" "31 / 10" aged_frames _ "[]"]
    error_absorption [of partial_drain 1 active_empty _
      "[Event ''can'' [CanData 0 0x123 [0x11, 0x22], Malformed]]"]
  by (simp add: partial_drain_def can_records_def active_empty_eq aged_frames_eq
      apply_can_msg_def Let_def deque_append_def deque_remove_def MAX_MESSAGES_def
      sweep_def stale_keys_def remove_key_def dict_delitem_def is_stale_def MESSAGE_TIMEOUT_def
      CANMessage_init_def)

section \<open>Staleness and the sweep\<close>

text \<open>
  C3.  A frame is stale exactly when \<open>now - timestamp\<close> is strictly greater than
  \<open>MESSAGE_TIMEOUT\<close> = 2, so a frame whose age is exactly 2 is not stale.  The sweep
  keeps in the dict exactly the frames that are not stale, and in the deque exactly the
  keys whose frame is not stale; with nothing drained, \<open>_update_messages\<close> is the sweep.
  The two hypotheses say that the dict has one entry per key and the deque no duplicate,
  as in every reachable state.
\<close>

theorem staleness_boundary_and_sweep:
  assumes "distinct (map fst (messages s))" and "distinct (message_order s)"
  shows "(is_stale m now \<longleftrightarrow> now - timestamp m > 2) \<and>
         (now - timestamp m = 2 \<longrightarrow> \<not> is_stale m now) \<and>
         messages (sweep now s) = filter (\<lambda>(k, f). \<not> now - timestamp f > 2) (messages s) \<and>
         message_order (sweep now s) =
           filter (\<lambda>k. case map_of (messages s) k of None \<Rightarrow> True
                       | Some f \<Rightarrow> \<not> now - timestamp f > 2) (message_order s) \<and>
         (can_sock s \<noteq> None \<longrightarrow> update_messages (Inr []) now s = (None, sweep now s))"
proof -
  have a: "is_stale m now \<longleftrightarrow> now - timestamp m > 2" for m
    by (simp add: is_stale_def MESSAGE_TIMEOUT_def)
  have b: "messages (sweep now s) = filter (\<lambda>(k, f). \<not> now - timestamp f > 2) (messages s)"
    using messages_sweep [OF assms(1), of now] by (simp add: a)
  have "(k \<notin> set (stale_keys now s)) =
        (case map_of (messages s) k of None \<Rightarrow> True | Some f \<Rightarrow> \<not> now - timestamp f > 2)" for k
  proof (cases "map_of (messages s) k")
    case None
    then have "k \<notin> fst ` set (messages s)" by (simp add: map_of_eq_None_iff)
    then have "k \<notin> set (stale_keys now s)" by (auto simp: stale_keys_def)
    with None show ?thesis by simp
  next
    case (Some f)
    then have "(k, f) \<in> set (messages s)" by (rule map_of_SomeD)
    then have "k \<in> fst ` set (filter (\<lambda>(k, m). is_stale m now) (messages s)) \<longleftrightarrow> is_stale f now"
      by (rule stale_key_iff [OF assms(1)])
    with Some show ?thesis by (simp add: stale_keys_def a)
  qed
  then have c: "message_order (sweep now s) =
           filter (\<lambda>k. case map_of (messages s) k of None \<Rightarrow> True
                       | Some f \<Rightarrow> \<not> now - timestamp f > 2) (message_order s)"
    using message_order_sweep [OF assms(2), of now] by simp
  have d: "can_sock s \<noteq> None \<longrightarrow> update_messages (Inr []) now s = (None, sweep now s)"
    by (simp add: update_messages_def try_body_def)
  from a [of m] b c d show ?thesis by simp
qed

theorem staleness_boundary_and_sweep_witness:
  "is_stale (CANMessage_init 0x200 [] 1 1) (31 / 10) \<and>
   \<not> is_stale (CANMessage_init 0x201 [] 1 (11 / 10)) (31 / 10) \<and>
   messages aged_frames =
     [((1, 0x200), CANMessage_init 0x200 [] 1 1),
      ((1, 0x201), CANMessage_init 0x201 [] 1 (11 / 10)),
      ((1, 0x202), CANMessage_init 0x202 [] 1 (12 / 10))] \<and>
   messages (sweep (31 / 10) aged_frames) =
     [((1, 0x201), CANMessage_init 0x201 [] 1 (11 / 10)),
      ((1, 0x202), CANMessage_init 0x202 [] 1 (12 / 10))] \<and>
   message_order (sweep (31 / 10) aged_frames) = [(1, 0x201), (1, 0x202)] \<and>
   update_messages (Inr []) (31 / 10) aged_frames = (None, sweep (31 / 10) aged_frames)"
  using staleness_boundary_and_sweep [of aged_frames "CANMessage_init 0x200 [] 1 1" "31 / 10"]
    staleness_boundary_and_sweep [of aged_frames "CANMessage_init 0x201 [] 1 (11 / 10)" "31 / 10"]
  by (simp add: aged_frames_eq active_empty_eq CANMessage_init_def)

section \<open>The feature gate\<close>

text \<open>
  C4.  When a due check reads the flag as false while a socket is held, the socket is
  released and both containers are emptied.  In any state without socket and with empty
  containers, \<open>_update_messages\<close> does nothing and a check leaves both containers
  empty; it opens the socket exactly when it is due and reads the flag as true.  So
  whatever calls come between the disabling check and the enabling one, the enabling check
  opens the socket on empty containers.
\<close>

theorem gate_clearing:
  "(t1 - last_param_check s > 1 / 2 \<and> can_sock s \<noteq> None \<longrightarrow>
      check_debug_enabled t1 False s =
        (False, s\<lparr>messages := [], message_order := [], can_sock := None,
                  debug_enabled := False, last_param_check := t1\<rparr>)) \<and>
   (can_sock i = None \<and> messages i = [] \<and> message_order i = [] \<longrightarrow>
      update_messages drained t i = (None, i) \<and>
      messages (snd (check_debug_enabled t2 flag i)) = [] \<and>
      message_order (snd (check_debug_enabled t2 flag i)) = [] \<and>
      can_sock (snd (check_debug_enabled t2 flag i)) =
        (if t2 - last_param_check i > 1 / 2 \<and> flag then Some (SubSock ''can'' True 0) else None))"
  by (auto simp: check_debug_enabled_def update_messages_def Let_def)

theorem gate_clearing_witness:
  "length (messages aged_frames) = 3 \<and>
   check_debug_enabled 2 False aged_frames =
     (False, overlay_init\<lparr>last_param_check := 2\<rparr>) \<and>
   update_messages (Inr [Event ''can'' [CanData 0 1 []]]) (5 / 2)
       (overlay_init\<lparr>last_param_check := 2\<rparr>) =
     (None, overlay_init\<lparr>last_param_check := 2\<rparr>) \<and>
   check_debug_enabled 3 True (overlay_init\<lparr>last_param_check := 2\<rparr>) =
     (True, overlay_init\<lparr>can_sock := Some (SubSock ''can'' True 0), debug_enabled := True,
              last_param_check := 3\<rparr>)"
  using gate_clearing [of 2 aged_frames "overlay_init\<lparr>last_param_check := 2\<rparr>"
      "Inr [Event ''can'' [CanData 0 1 []]]" "5 / 2" 3 True]
  by (simp add: aged_frames_eq active_empty_eq overlay_init_def check_debug_enabled_def
      update_messages_def Let_def)

section \<open>Deduplication\<close>

text \<open>
  C5, as stated, fails: a record for key (0, 1) is applied at time 1 and the dict holds it;
  a second call at time 4 applies a record for key (0, 2) and then sweeps, and the dict no
  longer holds an entry for (0, 1).
\<close>

theorem dedup_last_write_wins_counterexample:
  "map fst (messages (run_updates [(Inr [Event ''can'' [CanData 0 1 [0x11]]], 1)] active_empty)) =
     [(0, 1)] \<and>
   map fst (messages (run_updates
      [(Inr [Event ''can'' [CanData 0 1 [0x11]]], 1),
       (Inr [Event ''can'' [CanData 0 2 [0x22]]], 4)] active_empty)) = [(0, 2)]"
  by code_simp

text \<open>
  C5, amended.  Take any sequence of calls of \<open>_update_messages\<close> on an overlay that
  holds the socket and whose dict has one entry per key (as in every reachable state).
  The dict still has one entry per key afterwards.  For the last record applied under a
  key, at time \<open>t\<close>, the dict holds exactly one entry under that key, with that record's
  payload and the timestamp \<open>t\<close>, unless a later call of the sequence reached its sweep
  at a time more than \<open>MESSAGE_TIMEOUT\<close> after \<open>t\<close>; then it holds none.
\<close>

theorem dedup_last_write_wins:
  assumes "distinct (map fst (messages s))" and "can_sock s \<noteq> None"
    and "calls = before @ (drained, t) # after"
    and "applied_records drained = pre @ CanData src addr dat # post"
    and "\<forall>dat'. CanData src addr dat' \<notin> set post"
    and "\<forall>(d', t') \<in> set after. \<forall>dat'. CanData src addr dat' \<notin> set (applied_records d')"
  shows "distinct (map fst (messages (run_updates calls s))) \<and>
         filter (\<lambda>p. fst p = (src, addr)) (messages (run_updates calls s)) =
           (if \<exists>(d', t') \<in> set after. sweep_runs d' \<and> t' - t > MESSAGE_TIMEOUT then []
            else [((src, addr),
                   \<lparr>address = addr, data = dat, bus = src, timestamp = t,
                      checksum_valid = True\<rparr>)])"
proof -
  let ?s0 = "run_updates before s"
  let ?s1 = "snd (update_messages drained t ?s0)"
  let ?v = "CANMessage_init addr dat src t"
  have d0: "distinct (map fst (messages ?s0))"
    by (rule distinct_messages_run_updates [OF assms(1)])
  have sock0: "can_sock ?s0 \<noteq> None"
    using assms(2) by (simp add: can_sock_run_updates)
  have d1: "distinct (map fst (messages ?s1))"
    by (rule distinct_messages_update_messages [OF d0])
  have sock1: "can_sock ?s1 \<noteq> None"
    using sock0 by (simp add: can_sock_update_messages)
  have e1: "filter (\<lambda>p. fst p = (src, addr)) (messages ?s1) = [((src, addr), ?v)]"
    by (rule entry_update_messages_applied [OF d0 sock0 assms(4) assms(5)])
  have run: "run_updates calls s = run_updates after ?s1"
    by (simp add: assms(3) run_updates_append run_updates_Cons)
  have "filter (\<lambda>p. fst p = (src, addr)) (messages (run_updates calls s)) =
        filter (\<lambda>(k, m). \<not> (\<exists>(d, t) \<in> set after. sweep_runs d \<and> is_stale m t))
          [((src, addr), ?v)]"
    using entry_run_updates_other [OF d1 sock1 assms(6)] by (simp add: run e1)
  also have "\<dots> =
        (if \<exists>(d', t') \<in> set after. sweep_runs d' \<and> t' - t > MESSAGE_TIMEOUT then []
         else [((src, addr), ?v)])"
    by (simp add: is_stale_def CANMessage_init_def)
  finally show ?thesis
    using distinct_messages_run_updates [OF assms(1), of calls]
    by (simp add: CANMessage_init_def)
qed

theorem dedup_last_write_wins_witness:
  "messages (run_updates
      [(Inr [Event ''can'' [CanData 0 0x123 [0x11, 0x22]]], 1),
       (Inr [Event ''can'' [CanData 0 0x123 [0x33, 0x44]]], 11 / 10)] active_empty) =
     [((0, 0x123),
       \<lparr>address = 0x123, data = [0x33, 0x44], bus = 0, timestamp = 11 / 10,
          checksum_valid = True\<rparr>)] \<and>
   filter (\<lambda>p. fst p = (0, 0x123)) (messages (run_updates
      [(Inr [Event ''can'' [CanData 0 0x123 [0x11, 0x22]]], 1),
       (Inr [Event ''can'' [CanData 0 0x123 [0x33, 0x44]]], 11 / 10),
       (Inr [Event ''can'' [CanData 0 0x456 []]], 3),
       (Inr [], 4)] active_empty)) = []"
proof -
  let ?c1 = "(Inr [Event ''can'' [CanData 0 0x123 [0x11, 0x22]]], 1 :: rat)"
  let ?c2 = "Inr [Event ''can'' [CanData 0 0x123 [0x33, 0x44]]] :: exn + event list"
  let ?c3 = "(Inr [Event ''can'' [CanData 0 0x456 []]], 3 :: rat)"
  let ?c4 = "(Inr [] :: exn + event list, 4 :: rat)"
  have d: "distinct (map fst (messages active_empty))" and sock: "can_sock active_empty \<noteq> None"
    by (simp_all add: active_empty_eq)
  have ap: "applied_records ?c2 = [] @ CanData 0 0x123 [0x33, 0x44] # []"
    by (simp add: applied_records_def can_records_def)
  have a: "filter (\<lambda>p. fst p = (0, 0x123)) (messages (run_updates [?c1, (?c2, 11 / 10)] active_empty)) =
         [((0, 0x123),
           \<lparr>address = 0x123, data = [0x33, 0x44], bus = 0, timestamp = 11 / 10,
              checksum_valid = True\<rparr>)]"
    using dedup_last_write_wins [OF d sock, of "[?c1, (?c2, 11 / 10)]" "[?c1]" ?c2 "11 / 10" "[]",
        OF _ ap]
    by simp
  have keys: "map fst (messages (run_updates [?c1, (?c2, 11 / 10)] active_empty)) = [(0, 0x123)]"
    by code_simp
  have all: "filter (\<lambda>p. fst p = (0, 0x123)) (messages (run_updates [?c1, (?c2, 11 / 10)] active_empty))
      = messages (run_updates [?c1, (?c2, 11 / 10)] active_empty)"
    by (rule filter_True) (use keys in force)
  have b: "filter (\<lambda>p. fst p = (0, 0x123))
      (messages (run_updates [?c1, (?c2, 11 / 10), ?c3, ?c4] active_empty)) = []"
    using dedup_last_write_wins [OF d sock, of "[?c1, (?c2, 11 / 10), ?c3, ?c4]" "[?c1]" ?c2
        "11 / 10" "[?c3, ?c4]", OF _ ap]
    by (simp add: applied_records_def can_records_def sweep_runs_def MESSAGE_TIMEOUT_def)
  from a all b show ?thesis by simp
qed

section \<open>Move to the most recent end\<close>

text \<open>
  C6.  In every reachable state the deque has no duplicate and at most
  \<open>2 * MAX_MESSAGES\<close> keys.  On such a deque, applying a record whose key is present
  removes the earlier occurrence and appends the key; after applying any record its key
  is the last element of the deque and occurs there exactly once, and the deque still has
  no duplicates.
\<close>

theorem move_to_front:
  "(reachable s \<longrightarrow> distinct (message_order s) \<and> length (message_order s) \<le> MAX_MESSAGES * 2) \<and>
   (distinct (message_order s) \<and> length (message_order s) \<le> MAX_MESSAGES * 2 \<longrightarrow>
      ((src, addr) \<in> set (message_order s) \<longrightarrow>
         message_order (apply_can_msg t src addr dat s) =
           remove1 (src, addr) (message_order s) @ [(src, addr)]) \<and>
      message_order (apply_can_msg t src addr dat s) \<noteq> [] \<and>
      last (message_order (apply_can_msg t src addr dat s)) = (src, addr) \<and>
      count_list (message_order (apply_can_msg t src addr dat s)) (src, addr) = 1 \<and>
      distinct (message_order (apply_can_msg t src addr dat s)))"
proof (intro conjI impI)
  assume "reachable s"
  then have "overlay_inv s" by (rule reachable_overlay_inv)
  then show "distinct (message_order s)" and "length (message_order s) \<le> MAX_MESSAGES * 2"
    by (simp_all add: overlay_inv_def)
next
  let ?k = "(src, addr)"
  let ?xs = "remove1 ?k (message_order s)"
  let ?ys = "message_order (apply_can_msg t src addr dat s)"
  assume a: "distinct (message_order s) \<and> length (message_order s) \<le> MAX_MESSAGES * 2"
  have ys: "?ys = deque_append (MAX_MESSAGES * 2) ?xs ?k"
    by (rule message_order_apply_can_msg)
  have pos: "0 < MAX_MESSAGES * 2" by (simp add: MAX_MESSAGES_def)
  from a have d: "distinct ?xs" and n: "?k \<notin> set ?xs" by simp_all
  show ne: "?ys \<noteq> []" unfolding ys by (rule deque_append_nonempty [OF pos])
  show "last ?ys = ?k" unfolding ys by (rule last_deque_append [OF pos])
  show dys: "distinct ?ys" unfolding ys by (rule distinct_deque_append [OF d n])
  have "?k \<in> set ?ys" unfolding ys by (rule mem_deque_append [OF pos])
  with dys show "count_list ?ys ?k = 1" by (simp add: count_list_distinct)
  {
    assume "?k \<in> set (message_order s)"
    then have "length ?xs < length (message_order s)"
      by (simp add: length_remove1) (cases "message_order s"; simp)
    with a have "length (?xs @ [?k]) \<le> MAX_MESSAGES * 2" by simp
    then show "?ys = ?xs @ [?k]" unfolding ys by (simp add: deque_append_def Let_def)
  }
qed

theorem move_to_front_witness:
  "distinct (message_order (burst_state 3)) \<and>
   length (message_order (burst_state 3)) \<le> MAX_MESSAGES * 2 \<and>
   message_order (burst_state 3) = [(0, 0), (0, 1), (0, 2)] \<and>
   message_order (apply_can_msg 2 0 0 [0xFF] (burst_state 3)) = [(0, 1), (0, 2), (0, 0)] \<and>
   last (message_order (apply_can_msg 2 0 0 [0xFF] (burst_state 3))) = (0, 0) \<and>
   count_list (message_order (apply_can_msg 2 0 0 [0xFF] (burst_state 3))) (0, 0) = 1"
  using move_to_front [of "burst_state 3" 0 0 2 "[0xFF]"] reachable_burst_state [of 3]
  by (simp add: burst_state_3)

section \<open>The deque's keys are keys of the dict\<close>

text \<open>
  C7.  In every reachable state each key of the deque is a key of the dict.  Whatever the
  state, reachable or not, the loop that draws the rows raises nothing, and each row it
  draws is the dict's entry for a key of the deque: a key of the deque that the dict does
  not hold yields no row and no error.
\<close>

theorem tracker_store_containment:
  "(reachable s \<longrightarrow> set (message_order s) \<subseteq> fst ` set (messages s)) \<and>
   (\<exists>rows. fst (draw_messages rect now s) = Inr rows \<and>
      (\<forall>r \<in> set rows. \<exists>k \<in> set (message_order s). map_of (messages s) k = Some (fst r)))"
proof (intro conjI impI)
  assume "reachable s"
  then have "overlay_inv s" by (rule reachable_overlay_inv)
  then show "set (message_order s) \<subseteq> fst ` set (messages s)" by (simp add: overlay_inv_def)
next
  from draw_messages_rows [of rect now s]
  obtain rows where r1: "fst (draw_messages rect now s) = Inr rows"
    and r2: "\<forall>r \<in> set rows. snd (snd r) = row_color (fst r) now \<and>
        (\<exists>k \<in> set (message_order s). map_of (messages s) k = Some (fst r))"
    by (elim exE conjE)
  from r2 have "\<forall>r \<in> set rows. \<exists>k \<in> set (message_order s). map_of (messages s) k = Some (fst r)"
    by simp
  with r1 show "\<exists>rows. fst (draw_messages rect now s) = Inr rows \<and>
      (\<forall>r \<in> set rows. \<exists>k \<in> set (message_order s). map_of (messages s) k = Some (fst r))"
    by (intro exI [of _ rows] conjI)
qed

theorem tracker_store_containment_witness:
  "set (message_order (burst_state 3)) \<subseteq> fst ` set (messages (burst_state 3)) \<and>
   \<not> set (message_order dangling_key) \<subseteq> fst ` set (messages dangling_key) \<and>
   fst (draw_messages (Rectangle 0 0 2160 1080) 1 dangling_key) =
     Inr [(CANMessage_init 1 [0x2A] 0 1, 862, TEXT_COLOR)]"
  using tracker_store_containment [of "burst_state 3"] reachable_burst_state [of 3]
    tracker_store_containment [of dangling_key "Rectangle 0 0 2160 1080" 1]
  by (simp add: draw_dangling_key) (simp add: dangling_key_def)

section \<open>The display cap and the order of the rows\<close>

text \<open>
  C8.  A render pass draws at most \<open>MAX_MESSAGES\<close> rows.  The rows are, in order, the
  dict's entries for the first keys that the dict holds among the last \<open>MAX_MESSAGES\<close>
  keys of the deque, most recent first; all of these keys are drawn unless the loop stops
  for lack of vertical room (the next row would start at or below \<open>max_y\<close>).  With 50
  distinct keys a pass on a 2160 by 2160 rectangle draws the 20 most recent keys, most
  recent first; on a 1920 by 1080 rectangle it draws the 9 most recent.
\<close>

theorem display_cap_and_order:
  "\<exists>rows. fst (draw_messages rect now s) = Inr rows \<and>
     length rows \<le> MAX_MESSAGES \<and>
     map (\<lambda>r. Some (fst r)) rows =
       map (map_of (messages s))
         (take (length rows) (filter (\<lambda>k. dict_contains k (messages s))
            (take MAX_MESSAGES (rev (message_order s))))) \<and>
     (length rows =
        length (filter (\<lambda>k. dict_contains k (messages s))
                  (take MAX_MESSAGES (rev (message_order s)))) \<or>
      max_y rect \<le>
        col_header_y rect + LINE_HEIGHT + (LINE_HEIGHT - 4) * of_nat (length rows))"
proof -
  let ?ks = "filter (\<lambda>k. dict_contains k (messages s)) (take MAX_MESSAGES (rev (message_order s)))"
  from draw_messages_char [of rect now s]
  obtain rows n where r1: "fst (draw_messages rect now s) = Inr rows"
    and r2: "map (\<lambda>r. Some (fst r)) rows = map (map_of (messages s)) (take n ?ks)"
    by (elim exE conjE)
  have "length rows = length (map (\<lambda>r. Some (fst r)) rows)" by simp
  also have "\<dots> = length (take n ?ks)" by (simp only: r2 length_map)
  finally have len: "length rows = min (length ?ks) n" by simp
  then have "take (length rows) ?ks = take n ?ks" by (simp add: min_def)
  with r2 have r2': "map (\<lambda>r. Some (fst r)) rows =
      map (map_of (messages s)) (take (length rows) ?ks)" by simp
  from draw_messages_rows [of rect now s] r1 have cap: "length rows \<le> MAX_MESSAGES" by auto
  from draw_messages_room [of rect now s] r1
  have room: "length rows = length ?ks \<or>
      max_y rect \<le> col_header_y rect + LINE_HEIGHT + (LINE_HEIGHT - 4) * of_nat (length rows)"
    by auto
  from r1 cap r2' room show ?thesis by (intro exI [of _ rows] conjI)
qed

theorem display_cap_and_order_witness:
  "(\<exists>rows. fst (draw_messages (Rectangle 0 0 2160 2160) 1 (burst_state 50)) = Inr rows \<and>
     length rows \<le> MAX_MESSAGES \<and>
     map (\<lambda>r. Some (fst r)) rows =
       map (map_of (messages (burst_state 50)))
         (take (length rows) (filter (\<lambda>k. dict_contains k (messages (burst_state 50)))
            (take MAX_MESSAGES (rev (message_order (burst_state 50)))))) \<and>
     (length rows =
        length (filter (\<lambda>k. dict_contains k (messages (burst_state 50)))
                  (take MAX_MESSAGES (rev (message_order (burst_state 50))))) \<or>
      max_y (Rectangle 0 0 2160 2160) \<le>
        col_header_y (Rectangle 0 0 2160 2160) + LINE_HEIGHT
          + (LINE_HEIGHT - 4) * of_nat (length rows))) \<and>
   length (messages (burst_state 50)) = 50 \<and>
   map_sum id (map (\<lambda>r. (bus (fst r), address (fst r))))
       (fst (draw_messages (Rectangle 0 0 2160 2160) 1 (burst_state 50))) =
     Inr [(0, 49), (0, 48), (0, 47), (0, 46), (0, 45), (0, 44), (0, 43), (0, 42), (0, 41), (0, 40),
          (0, 39), (0, 38), (0, 37), (0, 36), (0, 35), (0, 34), (0, 33), (0, 32), (0, 31), (0, 30)] \<and>
   map_sum id (map (\<lambda>r. (bus (fst r), address (fst r))))
       (fst (draw_messages (Rectangle 0 0 1920 1080) 1 (burst_state 50))) =
     Inr [(0, 49), (0, 48), (0, 47), (0, 46), (0, 45), (0, 44), (0, 43), (0, 42), (0, 41)]"
proof (intro conjI)
  show "\<exists>rows. fst (draw_messages (Rectangle 0 0 2160 2160) 1 (burst_state 50)) = Inr rows \<and>
     length rows \<le> MAX_MESSAGES \<and>
     map (\<lambda>r. Some (fst r)) rows =
       map (map_of (messages (burst_state 50)))
         (take (length rows) (filter (\<lambda>k. dict_contains k (messages (burst_state 50)))
            (take MAX_MESSAGES (rev (message_order (burst_state 50)))))) \<and>
     (length rows =
        length (filter (\<lambda>k. dict_contains k (messages (burst_state 50)))
                  (take MAX_MESSAGES (rev (message_order (burst_state 50))))) \<or>
      max_y (Rectangle 0 0 2160 2160) \<le>
        col_header_y (Rectangle 0 0 2160 2160) + LINE_HEIGHT
          + (LINE_HEIGHT - 4) * of_nat (length rows))"
    by (rule display_cap_and_order)
  show "length (messages (burst_state 50)) = 50" by code_simp
  show "map_sum id (map (\<lambda>r. (bus (fst r), address (fst r))))
       (fst (draw_messages (Rectangle 0 0 2160 2160) 1 (burst_state 50))) =
     Inr [(0, 49), (0, 48), (0, 47), (0, 46), (0, 45), (0, 44), (0, 43), (0, 42), (0, 41), (0, 40),
          (0, 39), (0, 38), (0, 37), (0, 36), (0, 35), (0, 34), (0, 33), (0, 32), (0, 31), (0, 30)]"
    by code_simp
  show "map_sum id (map (\<lambda>r. (bus (fst r), address (fst r))))
       (fst (draw_messages (Rectangle 0 0 1920 1080) 1 (burst_state 50))) =
     Inr [(0, 49), (0, 48), (0, 47), (0, 46), (0, 45), (0, 44), (0, 43), (0, 42), (0, 41)]"
    by code_simp
qed

section \<open>Drawing does not change the state\<close>

text \<open>
  C9, as stated, fails: the drawing reads the clock itself, and the colour of a row depends
  on it.  A frame ingested at time 1 is drawn fresh at time 3 and stale at time 3.1, with
  the state unchanged in between; the same happens for two whole calls of \<open>_render\<close>
  between which \<open>drain_sock\<close> raises, so that nothing is applied and nothing swept.
\<close>

theorem snapshot_purity_counterexample:
  "fst (draw_overlay (Rectangle 0 0 1920 1080) (31 / 10)
         (snd (draw_overlay (Rectangle 0 0 1920 1080) 3 (burst_state 1)))) \<noteq>
     fst (draw_overlay (Rectangle 0 0 1920 1080) 3 (burst_state 1)) \<and>
   messages (snd (render (Rectangle 0 0 1920 1080) 3 True (Inl MessagingError) 3 3 (burst_state 1))) =
     messages (burst_state 1) \<and>
   message_order (snd (render (Rectangle 0 0 1920 1080) 3 True (Inl MessagingError) 3 3 (burst_state 1))) =
     message_order (burst_state 1) \<and>
   fst (render (Rectangle 0 0 1920 1080) (31 / 10) True (Inl MessagingError) (31 / 10) (31 / 10)
         (snd (render (Rectangle 0 0 1920 1080) 3 True (Inl MessagingError) 3 3 (burst_state 1)))) \<noteq>
     fst (render (Rectangle 0 0 1920 1080) 3 True (Inl MessagingError) 3 3 (burst_state 1))"
  by code_simp

text \<open>
  C9, amended.  The drawing part of \<open>_render\<close> (the rows, and the whole overlay) returns
  the state it was given: the dict, the deque and the stored timestamps are unchanged.  A
  second pass on the same rectangle draws the same as the first whenever the two clock
  readings classify every stored frame alike as stale or not, in particular when they are
  equal.  The state after a whole \<open>_render\<close> is the one the gate check and
  \<open>_update_messages\<close> leave.
\<close>

theorem snapshot_purity:
  "snd (draw_messages rect now s) = s \<and>
   snd (draw_overlay rect now s) = s \<and>
   messages (snd (draw_overlay rect now s)) = messages s \<and>
   message_order (snd (draw_overlay rect now s)) = message_order s \<and>
   map (\<lambda>p. timestamp (snd p)) (messages (snd (draw_overlay rect now s))) =
     map (\<lambda>p. timestamp (snd p)) (messages s) \<and>
   ((\<forall>p \<in> set (messages s). is_stale (snd p) now = is_stale (snd p) now') \<longrightarrow>
      fst (draw_messages rect now' (snd (draw_messages rect now s))) =
        fst (draw_messages rect now s) \<and>
      fst (draw_overlay rect now' (snd (draw_overlay rect now s))) =
        fst (draw_overlay rect now s)) \<and>
   snd (render rect t_check flag drained t_update now s) =
     (if fst (check_debug_enabled t_check flag s)
      then snd (update_messages drained t_update (snd (check_debug_enabled t_check flag s)))
      else snd (check_debug_enabled t_check flag s))"
proof -
  have "fst (draw_messages rect now' s) = fst (draw_messages rect now s) \<and>
        fst (draw_overlay rect now' s) = fst (draw_overlay rect now s)"
    if "\<forall>p \<in> set (messages s). is_stale (snd p) now = is_stale (snd p) now'"
    using fst_draw_messages_clock [OF that, of rect] fst_draw_overlay_clock [OF that, of rect]
    by simp
  then show ?thesis
    by (simp add: snd_draw_messages snd_draw_overlay snd_render)
qed

theorem snapshot_purity_witness:
  "messages (burst_state 1) = [((0, 0), CANMessage_init 0 [] 0 1)] \<and>
   \<not> is_stale (CANMessage_init 0 [] 0 1) 2 \<and> \<not> is_stale (CANMessage_init 0 [] 0 1) 3 \<and>
   snd (draw_overlay (Rectangle 0 0 1920 1080) 2 (burst_state 1)) = burst_state 1 \<and>
   fst (draw_overlay (Rectangle 0 0 1920 1080) 3
         (snd (draw_overlay (Rectangle 0 0 1920 1080) 2 (burst_state 1)))) =
     fst (draw_overlay (Rectangle 0 0 1920 1080) 2 (burst_state 1))"
proof -
  have m: "messages (burst_state 1) = [((0, 0), CANMessage_init 0 [] 0 1)]"
    by (simp only: burst_state_1) simp
  have f2: "\<not> is_stale (CANMessage_init 0 [] 0 1) 2" and f3: "\<not> is_stale (CANMessage_init 0 [] 0 1) 3"
    by (simp_all add: is_stale_def CANMessage_init_def MESSAGE_TIMEOUT_def)
  have h: "\<forall>p \<in> set (messages (burst_state 1)). is_stale (snd p) 2 = is_stale (snd p) 3"
    unfolding m using f2 f3 by simp
  note inst = snapshot_purity [of "Rectangle 0 0 1920 1080" 2 "burst_state 1" 3 0 False "Inr []" 0]
  from inst have a: "snd (draw_overlay (Rectangle 0 0 1920 1080) 2 (burst_state 1)) = burst_state 1"
    by blast
  from inst h have b: "fst (draw_overlay (Rectangle 0 0 1920 1080) 3
         (snd (draw_overlay (Rectangle 0 0 1920 1080) 2 (burst_state 1)))) =
     fst (draw_overlay (Rectangle 0 0 1920 1080) 2 (burst_state 1))"
    by blast
  from m f2 f3 a b show ?thesis by (intro conjI)
qed

section \<open>The colour for an invalid checksum is never used\<close>

text \<open>
  C10.  The constructor sets \<open>checksum_valid\<close>, and in every reachable state every
  stored message has it set; hence every row a render pass draws from a reachable state
  has the colour of a fresh or of a stale message, never \<open>ERROR_TEXT_COLOR\<close>.
\<close>

theorem invalid_style_unreachable:
  assumes "reachable s"
  shows "checksum_valid (CANMessage_init a d b t) \<and>
         (\<forall>p \<in> set (messages s). checksum_valid (snd p)) \<and>
         (\<exists>rows. fst (draw_messages rect now s) = Inr rows \<and>
            (\<forall>r \<in> set rows. checksum_valid (fst r) \<and>
               snd (snd r) \<noteq> ERROR_TEXT_COLOR \<and>
               (snd (snd r) = TEXT_COLOR \<or> snd (snd r) = STALE_TEXT_COLOR)))"
proof -
  from assms have "overlay_inv s" by (rule reachable_overlay_inv)
  then have valid: "\<forall>p \<in> set (messages s). checksum_valid (snd p)"
    by (simp add: overlay_inv_def)
  from draw_messages_rows [of rect now s]
  obtain rows where r1: "fst (draw_messages rect now s) = Inr rows"
    and r2: "\<forall>r \<in> set rows. snd (snd r) = row_color (fst r) now \<and>
        (\<exists>k \<in> set (message_order s). map_of (messages s) k = Some (fst r))"
    by (elim exE conjE)
  have "\<forall>r \<in> set rows. checksum_valid (fst r) \<and>
               snd (snd r) \<noteq> ERROR_TEXT_COLOR \<and>
               (snd (snd r) = TEXT_COLOR \<or> snd (snd r) = STALE_TEXT_COLOR)"
  proof
    fix r assume "r \<in> set rows"
    with r2 obtain k where c: "snd (snd r) = row_color (fst r) now"
      and k: "map_of (messages s) k = Some (fst r)" by blast
    from k have "(k, fst r) \<in> set (messages s)" by (rule map_of_SomeD)
    with valid have v: "checksum_valid (fst r)" by force
    then have "row_color (fst r) now = TEXT_COLOR \<or> row_color (fst r) now = STALE_TEXT_COLOR"
      by (simp add: row_color_def)
    moreover have "TEXT_COLOR \<noteq> ERROR_TEXT_COLOR" and "STALE_TEXT_COLOR \<noteq> ERROR_TEXT_COLOR"
      by (simp_all add: TEXT_COLOR_def STALE_TEXT_COLOR_def ERROR_TEXT_COLOR_def)
    ultimately show "checksum_valid (fst r) \<and>
               snd (snd r) \<noteq> ERROR_TEXT_COLOR \<and>
               (snd (snd r) = TEXT_COLOR \<or> snd (snd r) = STALE_TEXT_COLOR)"
      using c v by auto
  qed
  with r1 have "\<exists>rows. fst (draw_messages rect now s) = Inr rows \<and>
            (\<forall>r \<in> set rows. checksum_valid (fst r) \<and>
               snd (snd r) \<noteq> ERROR_TEXT_COLOR \<and>
               (snd (snd r) = TEXT_COLOR \<or> snd (snd r) = STALE_TEXT_COLOR))"
    by (intro exI [of _ rows] conjI)
  with valid show ?thesis by (simp add: CANMessage_init_def)
qed

theorem invalid_style_unreachable_witness:
  "reachable mixed_state \<and>
   list_all (\<lambda>p. checksum_valid (snd p)) (messages mixed_state) \<and>
   fst (draw_messages (Rectangle 0 0 1920 1080) (16 / 5) mixed_state) =
     Inr [(CANMessage_init 7 [0x11] 0 (5 / 2), 862, TEXT_COLOR),
          (CANMessage_init 1 [] 0 1, 884, STALE_TEXT_COLOR),
          (CANMessage_init 0 [] 0 1, 906, STALE_TEXT_COLOR)] \<and>
   TEXT_COLOR \<noteq> ERROR_TEXT_COLOR \<and> STALE_TEXT_COLOR \<noteq> ERROR_TEXT_COLOR"
proof -
  note inst = invalid_style_unreachable [OF reachable_mixed_state,
      of 7 "[0x11]" 0 "5 / 2" "Rectangle 0 0 1920 1080" "16 / 5"]
  from inst have v: "list_all (\<lambda>p. checksum_valid (snd p)) (messages mixed_state)"
    by (simp add: list_all_iff)
  from inst draw_mixed_state
  have "TEXT_COLOR \<noteq> ERROR_TEXT_COLOR \<and> STALE_TEXT_COLOR \<noteq> ERROR_TEXT_COLOR"
    by simp
  with v reachable_mixed_state draw_mixed_state show ?thesis by simp
qed

end
